theory Spec2Isabelle
  imports Complex_Main
begin

section \<open>Text and statistics\<close>

text \<open>
  A Python \<open>str\<close> is a sequence of Unicode code points, and \<open>len\<close> counts code points.
  A code point is modelled as a natural number, a string as a list of them.
\<close>

type_synonym cp = nat
type_synonym str = "cp list"

text \<open>ASCII literals are written through \<open>cps\<close>, for readability only.\<close>

definition cps :: "string \<Rightarrow> str" where
  "cps s = map of_char s"

definition space :: cp where
  "space = 32"

definition newline :: cp where
  "newline = 10"

text \<open>\<open>sep.join(xs)\<close>\<close>

fun join :: "str \<Rightarrow> str list \<Rightarrow> str" where
  "join sep [] = []"
| "join sep [x] = x"
| "join sep (x # y # ys) = x @ sep @ join sep (y # ys)"

text \<open>The dictionary \<open>self.stats\<close> of \<open>SubtitleCleaner\<close>, with the keys of \<open>__init__\<close>.\<close>

record stats =
  original_segments :: int
  processed_segments :: int
  removed_duplicates :: int
  removed_timestamps :: int
  total_characters :: int
  total_words :: int
  processing_time :: real

definition init_stats :: stats where
  "init_stats = \<lparr> original_segments = 0, processed_segments = 0, removed_duplicates = 0,
     removed_timestamps = 0, total_characters = 0, total_words = 0, processing_time = 0 \<rparr>"

section \<open>\<open>remove_duplicates\<close>\<close>

text \<open>
  The loop \<open>for i in range(1, len(segments))\<close>: the state is the index, the list \<open>cleaned\<close>
  and the counter \<open>duplicates_removed\<close>. Each fragment is compared with \<open>segments[i-1]\<close>,
  its neighbour in the input.
\<close>

function remove_duplicates_loop :: "str list \<Rightarrow> nat \<Rightarrow> str list \<Rightarrow> int \<Rightarrow> str list \<times> int" where
  "remove_duplicates_loop segments i cleaned duplicates_removed =
     (if i < length segments then
        (if segments ! i \<noteq> segments ! (i - 1)
         then remove_duplicates_loop segments (i + 1) (cleaned @ [segments ! i]) duplicates_removed
         else remove_duplicates_loop segments (i + 1) cleaned (duplicates_removed + 1))
      else (cleaned, duplicates_removed))"
  by pat_completeness auto
termination
  by (relation "measure (\<lambda>(segments, i, cleaned, d). length segments - i)") auto

declare remove_duplicates_loop.simps [simp del]

text \<open>
  The method returns the list and writes the counter into \<open>self.stats\<close>; on an empty list
  it returns at once and leaves the statistics as they are.
\<close>

definition remove_duplicates :: "stats \<Rightarrow> str list \<Rightarrow> str list \<times> stats" where
  "remove_duplicates st segments =
     (if segments = [] then (segments, st)
      else (case remove_duplicates_loop segments 1 [segments ! 0] 0 of
              (cleaned, duplicates_removed) \<Rightarrow>
                (cleaned, st\<lparr>removed_duplicates := duplicates_removed\<rparr>)))"

text \<open>
  The Deduplicator as the specification words it: the first fragment is kept, and each
  later fragment is kept only if it differs from the last fragment kept so far. The result
  is the kept fragments and the number of removed ones.
\<close>

fun Deduplicator_spec_from :: "str \<Rightarrow> str list \<Rightarrow> str list \<times> int" where
  "Deduplicator_spec_from kept [] = ([], 0)"
| "Deduplicator_spec_from kept (x # xs) =
     (if x \<noteq> kept
      then (case Deduplicator_spec_from x xs of (ys, n) \<Rightarrow> (x # ys, n))
      else (case Deduplicator_spec_from kept xs of (ys, n) \<Rightarrow> (ys, n + 1)))"

definition Deduplicator_spec :: "str list \<Rightarrow> str list \<times> int" where
  "Deduplicator_spec segments =
     (case segments of
        [] \<Rightarrow> ([], 0)
      | x # xs \<Rightarrow> (case Deduplicator_spec_from x xs of (ys, n) \<Rightarrow> (x # ys, n)))"

section \<open>\<open>merge_consecutive_segments\<close>\<close>

text \<open>The \<open>while i < len(segments)\<close> loop, with the index and the list \<open>merged\<close> as state.\<close>

function merge_loop :: "str list \<Rightarrow> int \<Rightarrow> nat \<Rightarrow> str list \<Rightarrow> str list" where
  "merge_loop segments min_length i merged =
     (if i < length segments then
        (let current = segments ! i in
         if int (length current) < min_length \<and> i + 1 < length segments
         then merge_loop segments min_length (i + 2)
                (merged @ [current @ [space] @ segments ! (i + 1)])
         else merge_loop segments min_length (i + 1) (merged @ [current]))
      else merged)"
  by pat_completeness auto
termination
  by (relation "measure (\<lambda>(segments, m, i, merged). length segments - i)") auto

declare merge_loop.simps [simp del]

definition merge_consecutive_segments :: "str list \<Rightarrow> int \<Rightarrow> str list" where
  "merge_consecutive_segments segments min_length =
     (if segments = [] then segments else merge_loop segments min_length 0 [])"

section \<open>Character classes\<close>

text \<open>
  The characters that \<open>\s\<close> matches in a \<open>str\<close> pattern and that \<open>str.strip\<close> removes are the
  same set, the Unicode whitespace of \<open>str.isspace\<close>: U+0009..U+000D, U+001C..U+0020,
  U+0085, U+00A0, U+1680, U+2000..U+200A, U+2028, U+2029, U+202F, U+205F, U+3000.
\<close>

definition is_space :: "cp \<Rightarrow> bool" where
  "is_space c \<longleftrightarrow>
     (9 \<le> c \<and> c \<le> 13) \<or> (28 \<le> c \<and> c \<le> 32) \<or> c = 133 \<or> c = 160 \<or> c = 5760 \<or>
     (8192 \<le> c \<and> c \<le> 8202) \<or> c = 8232 \<or> c = 8233 \<or> c = 8239 \<or> c = 8287 \<or> c = 12288"

text \<open>
  The class \<open>[.!?]\<close>.
\<close>

definition is_mark :: "cp \<Rightarrow> bool" where
  "is_mark c \<longleftrightarrow> c = 46 \<or> c = 33 \<or> c = 63"

text \<open>
  \<open>\w\<close> in a \<open>str\<close> pattern is \<open>[a-zA-Z0-9_]\<close> on ASCII and \<open>str.isalnum\<close> beyond;
  \<open>str.lower\<close> maps \<open>A..Z\<close> to \<open>a..z\<close> on an ASCII string and follows the Unicode case
  tables otherwise. The tables of the Unicode database are not part of the program: they
  are a parameter \<open>U\<close> of every function that reads them, and every theorem holds for all
  tables.
\<close>

record unicode_tables =
  uni_alnum :: "cp \<Rightarrow> bool"
  uni_lower :: "str \<Rightarrow> str"

definition is_word :: "unicode_tables \<Rightarrow> cp \<Rightarrow> bool" where
  "is_word U c \<longleftrightarrow>
     (if c < 128 then (48 \<le> c \<and> c \<le> 57) \<or> (65 \<le> c \<and> c \<le> 90) \<or> c = 95 \<or> (97 \<le> c \<and> c \<le> 122)
      else uni_alnum U c)"

definition lower :: "unicode_tables \<Rightarrow> str \<Rightarrow> str" where
  "lower U s =
     (if list_all (\<lambda>c. c < 128) s then map (\<lambda>c. if 65 \<le> c \<and> c \<le> 90 then c + 32 else c) s
      else uni_lower U s)"

text \<open>
  The classes of \<open>_language_specific_cleaning\<close>: \<open>[\u4e00-\u9fff]\<close>, \<open>[a-zA-Z0-9]\<close>,
  \<open>[\u3040-\u309f\u30a0-\u30ff\u4e00-\u9fff]\<close>. The class of the pattern for \<open>ko\<close> is
  not a class: its text is the six characters U+00EA U+00B0 U+20AC U+00ED U+017E U+00A3
  with a hyphen between the third and the fourth, and a range from U+20AC down to U+00ED
  is refused when the pattern is compiled.
\<close>

definition is_cjk :: "cp \<Rightarrow> bool" where
  "is_cjk c \<longleftrightarrow> 0x4e00 \<le> c \<and> c \<le> 0x9fff"

definition is_latin_digit :: "cp \<Rightarrow> bool" where
  "is_latin_digit c \<longleftrightarrow> (97 \<le> c \<and> c \<le> 122) \<or> (65 \<le> c \<and> c \<le> 90) \<or> (48 \<le> c \<and> c \<le> 57)"

definition is_japanese :: "cp \<Rightarrow> bool" where
  "is_japanese c \<longleftrightarrow>
     (0x3040 \<le> c \<and> c \<le> 0x309f) \<or> (0x30a0 \<le> c \<and> c \<le> 0x30ff) \<or> (0x4e00 \<le> c \<and> c \<le> 0x9fff)"

section \<open>String methods\<close>

text \<open>
  \<open>s.strip()\<close>, \<open>s.startswith(p)\<close>, \<open>s.endswith(p)\<close> and \<open>sub in s\<close>.
\<close>

definition strip :: "str \<Rightarrow> str" where
  "strip s = rev (dropWhile is_space (rev (dropWhile is_space s)))"

fun startswith :: "str \<Rightarrow> str \<Rightarrow> bool" where
  "startswith s [] = True"
| "startswith [] (p # ps) = False"
| "startswith (c # cs) (p # ps) = (c = p \<and> startswith cs ps)"

definition endswith :: "str \<Rightarrow> str \<Rightarrow> bool" where
  "endswith s suf = startswith (rev s) (rev suf)"

fun contains :: "str \<Rightarrow> str \<Rightarrow> bool" where
  "contains [] sub = (sub = [])"
| "contains (c # cs) sub = (startswith (c # cs) sub \<or> contains cs sub)"

section \<open>Regular expressions\<close>

text \<open>
  Each \<open>re.sub\<close> and \<open>re.split\<close> of the source is a function that scans the text from
  the left as the regular expression engine does: at each position it tries the pattern,
  on a match it emits the replacement and goes on behind the match, otherwise it emits the
  character and moves one position.

  \<open>re.sub(r'\s+([.!?])', r'\1', text)\<close>: \<open>\s+\<close> is greedy and takes the whole run of
  whitespace; the pattern matches when a mark follows the run (a shorter run is followed by
  whitespace, never by a mark).
\<close>

function sub_space_before_mark :: "str \<Rightarrow> str" where
  "sub_space_before_mark [] = []"
| "sub_space_before_mark (c # cs) =
     (if is_space c then
        (case dropWhile is_space cs of
           [] \<Rightarrow> c # sub_space_before_mark cs
         | p # rest \<Rightarrow> if is_mark p then p # sub_space_before_mark rest
                      else c # sub_space_before_mark cs)
      else c # sub_space_before_mark cs)"
  by pat_completeness auto
termination
proof (relation "measure length")
  fix c cs p rest
  assume "dropWhile is_space cs = p # rest"
  then have "length (p # rest) \<le> length cs"
    by (metis length_dropWhile_le)
  then show "(rest, c # cs) \<in> measure length" by simp
qed auto

text \<open>
  \<open>re.sub(r'([.!?])(\w)', r'\1 \2', text)\<close>.
\<close>

fun sub_mark_word :: "unicode_tables \<Rightarrow> str \<Rightarrow> str" where
  "sub_mark_word U (c # d # rest) =
     (if is_mark c \<and> is_word U d then c # space # d # sub_mark_word U rest
      else c # sub_mark_word U (d # rest))"
| "sub_mark_word U cs = cs"

text \<open>
  \<open>re.split(r'(?<=[.!?])\s+', text)\<close>: a match starts at a whitespace character whose
  left neighbour \<open>prev\<close> is a mark and covers the whole run of whitespace. \<open>piece\<close> is the
  text since the last match; the text behind the last match is the last piece, so the
  empty text gives one empty piece.
\<close>

function split_sentences_loop :: "cp option \<Rightarrow> str \<Rightarrow> str \<Rightarrow> str list" where
  "split_sentences_loop prev piece [] = [piece]"
| "split_sentences_loop prev piece (c # cs) =
     (if (case prev of None \<Rightarrow> False | Some p \<Rightarrow> is_mark p) \<and> is_space c
      then piece # split_sentences_loop (Some (last (c # takeWhile is_space cs))) []
                     (dropWhile is_space cs)
      else split_sentences_loop (Some c) (piece @ [c]) cs)"
  by pat_completeness auto
termination
  by (relation "measure (\<lambda>(prev, piece, cs). length cs)")
     (auto simp: less_Suc_eq_le length_dropWhile_le)

definition split_sentences :: "str \<Rightarrow> str list" where
  "split_sentences text = split_sentences_loop None [] text"

text \<open>
  \<open>re.sub(r'\[.*?\]', '', text)\<close> and its two siblings: behind the opener, the lazy
  \<open>.*?\<close> stops at the first closer, and \<open>.\<close> matches every character but the line feed,
  so there is no match when a line feed comes before the closer. \<open>find_close\<close> returns the
  text behind the closer.
\<close>

fun find_close :: "cp \<Rightarrow> str \<Rightarrow> str option" where
  "find_close closer [] = None"
| "find_close closer (c # cs) =
     (if c = closer then Some cs
      else if c = newline then None
      else find_close closer cs)"

lemma find_close_length: "find_close closer cs = Some rest \<Longrightarrow> length rest < Suc (length cs)"
  by (induction cs) (auto split: if_splits)

function remove_span :: "cp \<Rightarrow> cp \<Rightarrow> str \<Rightarrow> str" where
  "remove_span opener closer [] = []"
| "remove_span opener closer (c # cs) =
     (if c = opener then
        (case find_close closer cs of
           Some rest \<Rightarrow> remove_span opener closer rest
         | None \<Rightarrow> c # remove_span opener closer cs)
      else c # remove_span opener closer cs)"
  by pat_completeness auto
termination
  by (relation "measure (\<lambda>(opener, closer, cs). length cs)")
     (auto dest: find_close_length)

text \<open>
  \<open>re.sub(r'\s+', ' ', text)\<close>.
\<close>

function collapse_whitespace :: "str \<Rightarrow> str" where
  "collapse_whitespace [] = []"
| "collapse_whitespace (c # cs) =
     (if is_space c then space # collapse_whitespace (dropWhile is_space cs)
      else c # collapse_whitespace cs)"
  by pat_completeness auto
termination
  by (relation "measure length") (auto simp: less_Suc_eq_le length_dropWhile_le)

text \<open>
  \<open>re.sub(r'([C])\s+([C])', r'\1\2', text)\<close> for a class \<open>C\<close> without whitespace: a
  character of \<open>C\<close>, a run of whitespace, a character of \<open>C\<close>. The scan goes on behind the
  second character, which is thereby not the first character of a later match.
\<close>

function sub_remove_space_between :: "(cp \<Rightarrow> bool) \<Rightarrow> str \<Rightarrow> str" where
  "sub_remove_space_between cls [] = []"
| "sub_remove_space_between cls (c # cs) =
     (if cls c \<and> cs \<noteq> [] \<and> is_space (hd cs) then
        (case dropWhile is_space cs of
           [] \<Rightarrow> c # sub_remove_space_between cls cs
         | d # rest \<Rightarrow> if cls d then c # d # sub_remove_space_between cls rest
                      else c # sub_remove_space_between cls cs)
      else c # sub_remove_space_between cls cs)"
  by pat_completeness auto
termination
proof (relation "measure (\<lambda>(cls, cs). length cs)")
  fix cls :: "cp \<Rightarrow> bool" and c cs d rest
  assume "dropWhile is_space cs = d # rest"
  then have "length (d # rest) \<le> length cs"
    by (metis length_dropWhile_le)
  then show "((cls, rest), (cls, c # cs)) \<in> measure (\<lambda>(cls, cs). length cs)" by simp
qed auto

text \<open>
  \<open>re.sub(r'([C])([D])', r'\1 \2', text)\<close>.
\<close>

fun sub_insert_space_between :: "(cp \<Rightarrow> bool) \<Rightarrow> (cp \<Rightarrow> bool) \<Rightarrow> str \<Rightarrow> str" where
  "sub_insert_space_between cls1 cls2 (c # d # rest) =
     (if cls1 c \<and> cls2 d then c # space # d # sub_insert_space_between cls1 cls2 rest
      else c # sub_insert_space_between cls1 cls2 (d # rest))"
| "sub_insert_space_between cls1 cls2 cs = cs"

section \<open>\<open>format_paragraphs\<close>\<close>

text \<open>
  The condition that closes a paragraph, evaluated after the sentence has been appended
  to \<open>current_paragraph\<close>.
\<close>

definition indicators :: "str list" where
  "indicators = [cps ''however'', cps ''therefore'', cps ''moreover'', cps ''furthermore'']"

definition ends_paragraph :: "unicode_tables \<Rightarrow> str list \<Rightarrow> str \<Rightarrow> bool" where
  "ends_paragraph U current_paragraph sentence \<longleftrightarrow>
     length current_paragraph \<ge> 3 \<and>
     ((endswith sentence [46] \<or> endswith sentence [63] \<or> endswith sentence [33]) \<or>
      list_ex (\<lambda>indicator. contains (lower U sentence) indicator) indicators)"

text \<open>
  The loop \<open>for sentence in sentences\<close>, with the lists \<open>paragraphs\<close> and
  \<open>current_paragraph\<close> as state.
\<close>

fun paragraph_loop :: "unicode_tables \<Rightarrow> str list \<Rightarrow> str list \<Rightarrow> str list \<Rightarrow> str list \<times> str list" where
  "paragraph_loop U [] paragraphs current_paragraph = (paragraphs, current_paragraph)"
| "paragraph_loop U (s # sentences) paragraphs current_paragraph =
     (let sentence = strip s in
      if sentence \<noteq> [] then
        (let current_paragraph = current_paragraph @ [sentence] in
         if ends_paragraph U current_paragraph sentence
         then paragraph_loop U sentences (paragraphs @ [join [space] current_paragraph]) []
         else paragraph_loop U sentences paragraphs current_paragraph)
      else paragraph_loop U sentences paragraphs current_paragraph)"

text \<open>
  The loop followed by \<open>if current_paragraph: paragraphs.append(...)\<close>.
\<close>

definition group_paragraphs :: "unicode_tables \<Rightarrow> str list \<Rightarrow> str list" where
  "group_paragraphs U sentences =
     (case paragraph_loop U sentences [] [] of
        (paragraphs, current_paragraph) \<Rightarrow>
          if current_paragraph \<noteq> [] then paragraphs @ [join [space] current_paragraph]
          else paragraphs)"

text \<open>
  The list \<open>sentences\<close>: the fragments joined, the two substitutions, the split.
\<close>

definition sentences_of :: "unicode_tables \<Rightarrow> str list \<Rightarrow> str list" where
  "sentences_of U segments =
     split_sentences (sub_mark_word U (sub_space_before_mark (join [space] segments)))"

definition format_paragraphs :: "unicode_tables \<Rightarrow> str list \<Rightarrow> str" where
  "format_paragraphs U segments = join [newline, newline] (group_paragraphs U (sentences_of U segments))"

text \<open>
  The same loop with each paragraph kept as the list of its sentences instead of their
  join; \<open>group_paragraphs\<close> is the join of each group (lemma \<open>group_paragraphs_groups\<close>).
\<close>

fun sentence_groups_loop :: "unicode_tables \<Rightarrow> str list \<Rightarrow> str list list \<Rightarrow> str list \<Rightarrow> str list list \<times> str list" where
  "sentence_groups_loop U [] groups current_paragraph = (groups, current_paragraph)"
| "sentence_groups_loop U (s # sentences) groups current_paragraph =
     (let sentence = strip s in
      if sentence \<noteq> [] then
        (let current_paragraph = current_paragraph @ [sentence] in
         if ends_paragraph U current_paragraph sentence
         then sentence_groups_loop U sentences (groups @ [current_paragraph]) []
         else sentence_groups_loop U sentences groups current_paragraph)
      else sentence_groups_loop U sentences groups current_paragraph)"

definition sentence_groups :: "unicode_tables \<Rightarrow> str list \<Rightarrow> str list list" where
  "sentence_groups U sentences =
     (case sentence_groups_loop U sentences [] [] of
        (groups, current_paragraph) \<Rightarrow>
          if current_paragraph \<noteq> [] then groups @ [current_paragraph] else groups)"

section \<open>Exceptions\<close>

text \<open>
  The exceptions that the code raises: those of the operations on the parsed document,
  \<open>re.error\<close> for a pattern that does not compile, and those of writing the output file.
  \<open>process_file\<close> catches every exception and returns \<open>'success': False\<close>.
\<close>

datatype error =
  ValueError | TypeError | KeyError | AttributeError | ReError | OSError | UnicodeEncodeError

text \<open>
  Sequencing: an exception ends the computation.
\<close>

definition bind_err :: "error + 'a \<Rightarrow> ('a \<Rightarrow> error + 'b) \<Rightarrow> error + 'b" where
  "bind_err m f = (case m of Inl e \<Rightarrow> Inl e | Inr x \<Rightarrow> f x)"

section \<open>\<open>clean_text\<close>\<close>

text \<open>
  \<open>_language_specific_cleaning\<close>. The branch for \<open>ko\<close> calls \<open>re.sub\<close> with the pattern
  that does not compile, which raises \<open>re.error\<close> whatever the text is.
\<close>

definition language_specific_cleaning :: "str \<Rightarrow> str \<Rightarrow> error + str" where
  "language_specific_cleaning text language_code =
     (if language_code = cps ''zh'' then
        Inr (sub_insert_space_between is_latin_digit is_cjk
              (sub_insert_space_between is_cjk is_latin_digit
                (sub_remove_space_between is_cjk text)))
      else if language_code = cps ''ja'' then Inr (sub_remove_space_between is_japanese text)
      else if language_code = cps ''ko'' then Inl ReError
      else Inr text)"

text \<open>
  The three removals of \<open>clean_text\<close>, in the order of the source: \<open>[...]\<close>, \<open>(...)\<close>,
  \<open><...>\<close>.
\<close>

definition remove_spans :: "str \<Rightarrow> str" where
  "remove_spans text = remove_span 60 62 (remove_span 40 41 (remove_span 91 93 text))"

text \<open>
  \<open>clean_text\<close>; \<open>if language_code:\<close> is false for \<open>None\<close> and for the empty string.
\<close>

definition clean_text :: "str \<Rightarrow> str option \<Rightarrow> error + str" where
  "clean_text text language_code =
     (let text = remove_spans text;
          text = collapse_whitespace text;
          text = strip text
      in case language_code of
           None \<Rightarrow> Inr text
         | Some code \<Rightarrow>
             if code \<noteq> [] then language_specific_cleaning text code else Inr text)"

section \<open>The parsed document\<close>

text \<open>
  The value that \<open>json.load\<close> returns. An object is the list of its keys and values (a
  \<open>dict\<close>, so each key occurs once).
\<close>

datatype json =
    JNull
  | JBool bool
  | JNum real
  | JStr str
  | JArr "json list"
  | JObj "(str \<times> json) list"

text \<open>
  The operations of the source on a value of any JSON type: \<open>key in v\<close>, \<open>v[key]\<close>,
  \<open>len(v)\<close>, \<open>for x in v\<close>, \<open>v.get(key, default)\<close> and \<open>v.strip()\<close>. A dictionary tests
  and iterates its keys, a list its elements, a string its substrings and characters; the
  other types raise.
\<close>

definition py_in :: "str \<Rightarrow> json \<Rightarrow> error + bool" where
  "py_in key v =
     (case v of
        JObj kvs \<Rightarrow> Inr (key \<in> set (map fst kvs))
      | JArr xs \<Rightarrow> Inr (JStr key \<in> set xs)
      | JStr s \<Rightarrow> Inr (contains s key)
      | _ \<Rightarrow> Inl TypeError)"

definition py_getitem :: "json \<Rightarrow> str \<Rightarrow> error + json" where
  "py_getitem v key =
     (case v of
        JObj kvs \<Rightarrow> (case map_of kvs key of None \<Rightarrow> Inl KeyError | Some x \<Rightarrow> Inr x)
      | _ \<Rightarrow> Inl TypeError)"

definition py_len :: "json \<Rightarrow> error + nat" where
  "py_len v =
     (case v of
        JArr xs \<Rightarrow> Inr (length xs)
      | JObj kvs \<Rightarrow> Inr (length kvs)
      | JStr s \<Rightarrow> Inr (length s)
      | _ \<Rightarrow> Inl TypeError)"

definition py_iter :: "json \<Rightarrow> error + json list" where
  "py_iter v =
     (case v of
        JArr xs \<Rightarrow> Inr xs
      | JObj kvs \<Rightarrow> Inr (map (\<lambda>kv. JStr (fst kv)) kvs)
      | JStr s \<Rightarrow> Inr (map (\<lambda>c. JStr [c]) s)
      | _ \<Rightarrow> Inl TypeError)"

definition py_get :: "json \<Rightarrow> str \<Rightarrow> json \<Rightarrow> error + json" where
  "py_get v key dflt =
     (case v of
        JObj kvs \<Rightarrow> (case map_of kvs key of None \<Rightarrow> Inr dflt | Some x \<Rightarrow> Inr x)
      | _ \<Rightarrow> Inl AttributeError)"

definition py_strip :: "json \<Rightarrow> error + str" where
  "py_strip v = (case v of JStr s \<Rightarrow> Inr (strip s) | _ \<Rightarrow> Inl AttributeError)"

text \<open>
  \<open>load_json3_file\<close> behind \<open>json.load\<close>: the test for \<open>'events'\<close>, and
  \<open>len(data['events'])\<close>, which the log message evaluates.
\<close>

definition load_json3_file :: "json \<Rightarrow> error + json" where
  "load_json3_file data =
     bind_err (py_in (cps ''events'') data) (\<lambda>present.
       if \<not> present then Inl ValueError
       else bind_err (py_getitem data (cps ''events'')) (\<lambda>events.
            bind_err (py_len events) (\<lambda>n. Inr data)))"

text \<open>
  \<open>extract_text_segments\<close>: the inner loop over \<open>event['segs']\<close>, the outer loop over the
  events, and the method, which stores the number of fragments.
\<close>

fun extract_segs :: "json list \<Rightarrow> str list \<Rightarrow> error + str list" where
  "extract_segs [] segments = Inr segments"
| "extract_segs (seg # segs) segments =
     bind_err (py_in (cps ''utf8'') seg) (\<lambda>present.
       if present then
         bind_err (py_getitem seg (cps ''utf8'')) (\<lambda>utf8.
         bind_err (py_strip utf8) (\<lambda>text.
           if text \<noteq> [] then extract_segs segs (segments @ [text])
           else extract_segs segs segments))
       else extract_segs segs segments)"

fun extract_events :: "json list \<Rightarrow> str list \<Rightarrow> error + str list" where
  "extract_events [] segments = Inr segments"
| "extract_events (event # events) segments =
     bind_err (py_in (cps ''segs'') event) (\<lambda>present.
       if present then
         bind_err (py_getitem event (cps ''segs'')) (\<lambda>segs.
         bind_err (py_iter segs) (\<lambda>segs.
         bind_err (extract_segs segs segments) (\<lambda>segments.
           extract_events events segments)))
       else extract_events events segments)"

definition extract_text_segments :: "stats \<Rightarrow> json \<Rightarrow> error + str list \<times> stats" where
  "extract_text_segments st data =
     bind_err (py_get data (cps ''events'') (JArr [])) (\<lambda>events.
     bind_err (py_iter events) (\<lambda>events.
     bind_err (extract_events events []) (\<lambda>segments.
       Inr (segments, st\<lparr>original_segments := int (length segments)\<rparr>))))"

section \<open>\<open>process_file\<close>\<close>

text \<open>
  The keyword arguments of \<open>process_file\<close>.
\<close>

record options =
  merge_duplicates :: bool
  min_segment_length :: int
  format_paragraphs_opt :: bool
  language_code :: "str option"

text \<open>
  \<open>len(text.split())\<close>: the number of maximal runs of characters that are not whitespace.
\<close>

fun word_count_from :: "bool \<Rightarrow> str \<Rightarrow> nat" where
  "word_count_from in_word [] = 0"
| "word_count_from in_word (c # cs) =
     (if is_space c then word_count_from False cs
      else (if in_word then 0 else 1) + word_count_from True cs)"

definition word_count :: "str \<Rightarrow> nat" where
  "word_count text = word_count_from False text"

text \<open>
  \<open>_save_output_file\<close>: the file system lets the directory be made and the file be
  opened and written, or raises an \<open>OSError\<close> (the parameter \<open>writable\<close>); encoding the
  text as UTF-8 raises \<open>UnicodeEncodeError\<close> when it holds a surrogate code point, U+D800
  to U+DFFF, which a \<open>\u\<close> escape of the JSON input can put into a string.
\<close>

definition is_surrogate :: "cp \<Rightarrow> bool" where
  "is_surrogate c \<longleftrightarrow> 0xd800 \<le> c \<and> c \<le> 0xdfff"

definition save_output_file :: "bool \<Rightarrow> str \<Rightarrow> error + unit" where
  "save_output_file writable content =
     (if \<not> writable then Inl OSError
      else if list_ex is_surrogate content then Inl UnicodeEncodeError
      else Inr ())"

text \<open>
  \<open>process_file\<close> from the document that \<open>json.load\<close> returned to the text written and
  the statistics. Opening and parsing the input file come before there is a document and
  are left out; the elapsed time is a parameter.
\<close>

definition process_file ::
  "unicode_tables \<Rightarrow> bool \<Rightarrow> real \<Rightarrow> stats \<Rightarrow> options \<Rightarrow> json \<Rightarrow> error + str \<times> stats" where
  "process_file U writable elapsed st opts raw =
     bind_err (load_json3_file raw) (\<lambda>data.
     bind_err (extract_text_segments st data) (\<lambda>(segments, st).
       let (segments, st) =
             (if merge_duplicates opts then remove_duplicates st segments else (segments, st));
           min_length = min_segment_length opts;
           segments =
             (if min_length > 0 then merge_consecutive_segments segments min_length
              else segments);
           text =
             (if format_paragraphs_opt opts then format_paragraphs U segments
              else join [space] segments)
       in bind_err (clean_text text (language_code opts)) (\<lambda>text.
            let st = st\<lparr>processed_segments := int (length segments),
                          total_characters := int (length text),
                          total_words := int (word_count text)\<rparr>
            in bind_err (save_output_file writable text) (\<lambda>saved.
                 Inr (text, st\<lparr>processing_time := elapsed\<rparr>)))))"

section \<open>Recursive forms of the two loops\<close>

text \<open>
  The index loops above walk the list from left to right; the functions below do the same
  walk by recursion on the list, and are what the proofs induct on. \<open>dedup_from prev xs\<close>
  is the loop of \<open>remove_duplicates\<close> from a position whose left neighbour in the input is
  \<open>prev\<close>; \<open>merge_from\<close> is the loop of \<open>merge_consecutive_segments\<close> on the rest of the
  input.
\<close>

fun dedup_from :: "str \<Rightarrow> str list \<Rightarrow> str list \<times> int" where
  "dedup_from prev [] = ([], 0)"
| "dedup_from prev (x # xs) =
     (case dedup_from x xs of (ys, n) \<Rightarrow> if x \<noteq> prev then (x # ys, n) else (ys, n + 1))"

fun merge_from :: "int \<Rightarrow> str list \<Rightarrow> str list" where
  "merge_from m [] = []"
| "merge_from m [a] = [a]"
| "merge_from m (a # b # rest) =
     (if int (length a) < m then (a @ [space] @ b) # merge_from m rest
      else a # merge_from m (b # rest))"

text \<open>A fragment made by the merge branch: a short input fragment, a space, its successor.\<close>

definition merged_pair :: "str list \<Rightarrow> int \<Rightarrow> str \<Rightarrow> bool" where
  "merged_pair segs m f \<longleftrightarrow>
     (\<exists>i < length segs - 1. int (length (segs ! i)) < m \<and> f = segs ! i @ [space] @ segs ! Suc i)"

section \<open>Predicates of the statements\<close>

text \<open>
  \<open>has_span opener closer t\<close>: somewhere in \<open>t\<close> an opener is followed by a closer with no
  line feed between them (lemma \<open>has_span_iff\<close>).
\<close>

fun has_span :: "cp \<Rightarrow> cp \<Rightarrow> str \<Rightarrow> bool" where
  "has_span opener closer [] = False"
| "has_span opener closer (c # cs) =
     ((c = opener \<and> find_close closer cs \<noteq> None) \<or> has_span opener closer cs)"

text \<open>
  A string that is not empty and neither starts nor ends with whitespace, as every
  fragment is after \<open>seg['utf8'].strip()\<close> and the test that follows it.
\<close>

definition trimmed :: "str \<Rightarrow> bool" where
  "trimmed s \<longleftrightarrow> s \<noteq> [] \<and> \<not> is_space (hd s) \<and> \<not> is_space (last s)"

text \<open>
  The invariant of the split loop on a trimmed text: the text still to be split does not
  end with whitespace; a piece under way starts with a character that is not whitespace
  and \<open>prev\<close> is its last character; a piece not yet begun is followed by a character that
  is not whitespace, and \<open>prev\<close> is not a mark.
\<close>

definition split_inv :: "cp option \<Rightarrow> str \<Rightarrow> str \<Rightarrow> bool" where
  "split_inv prev piece rest \<longleftrightarrow>
     piece @ rest \<noteq> [] \<and> \<not> is_space (last (piece @ rest)) \<and>
     (if piece = []
      then \<not> is_space (hd rest) \<and> (case prev of None \<Rightarrow> True | Some p \<Rightarrow> \<not> is_mark p)
      else \<not> is_space (hd piece) \<and> prev = Some (last piece))"

text \<open>
  A document whose fields, where present, have the types of the caption format: the value
  of \<open>events\<close> is a list of objects, the value of \<open>segs\<close> in an event is a list of objects,
  and the value of \<open>utf8\<close> in a fragment is a string, which holds no surrogate code point.
  Each of the three keys may be absent.
\<close>

fun seg_ok :: "json \<Rightarrow> bool" where
  "seg_ok (JObj kvs) =
     (case map_of kvs (cps ''utf8'') of
        None \<Rightarrow> True
      | Some v \<Rightarrow> (case v of JStr s \<Rightarrow> \<not> list_ex is_surrogate s | _ \<Rightarrow> False))"
| "seg_ok _ = False"

fun event_ok :: "json \<Rightarrow> bool" where
  "event_ok (JObj kvs) =
     (case map_of kvs (cps ''segs'') of
        None \<Rightarrow> True
      | Some v \<Rightarrow> (case v of JArr segs \<Rightarrow> list_all seg_ok segs | _ \<Rightarrow> False))"
| "event_ok _ = False"

fun document_ok :: "json \<Rightarrow> bool" where
  "document_ok (JObj kvs) =
     (case map_of kvs (cps ''events'') of
        None \<Rightarrow> True
      | Some v \<Rightarrow> (case v of JArr events \<Rightarrow> list_all event_ok events | _ \<Rightarrow> False))"
| "document_ok _ = False"

section \<open>Properties of \<open>remove_duplicates\<close>\<close>

lemma cps_simps [simp]: "cps [] = []" "cps (c # s) = of_char c # cps s"
  by (simp_all add: cps_def)

lemma remove_duplicates_loop_dedup_from:
  "0 < i \<Longrightarrow> i \<le> length segments \<Longrightarrow>
   remove_duplicates_loop segments i cleaned d =
     (cleaned @ fst (dedup_from (segments ! (i - 1)) (drop i segments)),
      d + snd (dedup_from (segments ! (i - 1)) (drop i segments)))"
proof (induction segments i cleaned d rule: remove_duplicates_loop.induct)
  case (1 segments i cleaned d)
  show ?case
  proof (cases "i < length segments")
    case False
    with "1.prems" show ?thesis
      by (subst remove_duplicates_loop.simps) simp
  next
    case True
    then have dr: "drop i segments = segments ! i # drop (Suc i) segments"
      by (simp add: Cons_nth_drop_Suc)
    show ?thesis
    proof (cases "segments ! i \<noteq> segments ! (i - 1)")
      case True
      with \<open>i < length segments\<close> "1.IH"(1) "1.prems" dr show ?thesis
        by (subst remove_duplicates_loop.simps) (simp add: case_prod_unfold)
    next
      case False
      with \<open>i < length segments\<close> "1.IH"(2) "1.prems" dr show ?thesis
        by (subst remove_duplicates_loop.simps) (simp add: case_prod_unfold)
    qed
  qed
qed

lemma dedup_from_remdups_adj: "x # fst (dedup_from x xs) = remdups_adj (x # xs)"
  by (induction xs arbitrary: x) (simp_all add: case_prod_unfold)

lemma dedup_from_count:
  "snd (dedup_from x xs) = int (length xs) - int (length (fst (dedup_from x xs)))"
  by (induction xs arbitrary: x) (simp_all add: case_prod_unfold)

text \<open>The kept fragments are the input with every run of equal neighbours cut to one.\<close>

lemma remove_duplicates_fst: "fst (remove_duplicates st segments) = remdups_adj segments"
proof (cases segments)
  case Nil
  then show ?thesis by (simp add: remove_duplicates_def)
next
  case (Cons x xs)
  then show ?thesis
    using remove_duplicates_loop_dedup_from [of 1 segments "[segments ! 0]" 0]
      dedup_from_remdups_adj [of x xs]
    by (simp add: remove_duplicates_def case_prod_unfold)
qed

lemma remove_duplicates_snd:
  "snd (remove_duplicates st segments) =
     (if segments = [] then st
      else st\<lparr>removed_duplicates :=
                int (length segments) - int (length (remdups_adj segments))\<rparr>)"
proof (cases segments)
  case Nil
  then show ?thesis by (simp add: remove_duplicates_def)
next
  case (Cons x xs)
  have "length (remdups_adj (x # xs)) = Suc (length (fst (dedup_from x xs)))"
    using dedup_from_remdups_adj [of x xs, symmetric] by simp
  with Cons show ?thesis
    using remove_duplicates_loop_dedup_from [of 1 segments "[segments ! 0]" 0]
      dedup_from_count [of x xs]
    by (simp add: remove_duplicates_def case_prod_unfold)
qed

lemma Deduplicator_spec_from_fst:
  "fst (Deduplicator_spec_from k xs) = tl (remdups_adj (k # xs))"
  by (induction xs arbitrary: k) (simp_all add: case_prod_unfold)

lemma Deduplicator_spec_from_snd:
  "snd (Deduplicator_spec_from k xs) =
     int (length xs) - int (length (tl (remdups_adj (k # xs))))"
  by (induction xs arbitrary: k) (simp_all add: case_prod_unfold)

lemma Deduplicator_spec_eq:
  "Deduplicator_spec segments =
     (remdups_adj segments, int (length segments) - int (length (remdups_adj segments)))"
proof (cases segments)
  case Nil
  then show ?thesis by (simp add: Deduplicator_spec_def)
next
  case (Cons x xs)
  have "remdups_adj (x # xs) = x # tl (remdups_adj (x # xs))"
    by simp
  then have "length (remdups_adj (x # xs)) = Suc (length (tl (remdups_adj (x # xs))))"
    by (metis length_Cons)
  with Cons show ?thesis
    by (simp add: Deduplicator_spec_def case_prod_unfold
        Deduplicator_spec_from_fst Deduplicator_spec_from_snd)
qed

text \<open>
  Claim C3. The Deduplicator of the specification, which compares each fragment with the
  last fragment kept, returns the same fragments and the same count of removed fragments as
  \<open>remove_duplicates\<close>, which compares each fragment with its left neighbour in the input
  (the count being the one stored in the statistics, which start at zero). Three equal
  fragments in a row are reduced to one.
\<close>

theorem remove_duplicates_refines_Deduplicator_spec:
  "remove_duplicates (st\<lparr>removed_duplicates := 0\<rparr>) segments =
     (fst (Deduplicator_spec segments),
      st\<lparr>removed_duplicates := snd (Deduplicator_spec segments)\<rparr>)
   \<and> fst (remove_duplicates st [a, a, a]) = [a]
   \<and> removed_duplicates (snd (remove_duplicates st [a, a, a])) = 2"
proof -
  have "remove_duplicates (st\<lparr>removed_duplicates := 0\<rparr>) segments =
     (fst (Deduplicator_spec segments),
      st\<lparr>removed_duplicates := snd (Deduplicator_spec segments)\<rparr>)"
    by (rule prod_eqI) (simp_all add: remove_duplicates_fst remove_duplicates_snd
        Deduplicator_spec_eq)
  moreover have "fst (remove_duplicates st [a, a, a]) = [a]"
    by (simp add: remove_duplicates_fst)
  moreover have "removed_duplicates (snd (remove_duplicates st [a, a, a])) = 2"
    by (simp add: remove_duplicates_snd)
  ultimately show ?thesis by blast
qed

text \<open>
  Claim C7. Running \<open>remove_duplicates\<close> on its own output changes nothing.
\<close>

theorem remove_duplicates_idempotent:
  "fst (remove_duplicates st' (fst (remove_duplicates st segments))) =
     fst (remove_duplicates st segments)"
proof -
  have "distinct_adj (remdups_adj segments)"
    by simp
  then have "remdups_adj (remdups_adj segments) = remdups_adj segments"
    by (simp only: distinct_adj_altdef)
  then show ?thesis
    by (simp add: remove_duplicates_fst)
qed

text \<open>
  Claim C8. The output of \<open>remove_duplicates\<close> is no longer than its input and has no two
  equal neighbours; on the empty input the output is empty and the count of removed
  fragments, as a fresh \<open>SubtitleCleaner\<close> holds it, is zero.
\<close>

theorem remove_duplicates_length_adjacent:
  "length (fst (remove_duplicates st segments)) \<le> length segments
   \<and> (\<forall>i. Suc i < length (fst (remove_duplicates st segments)) \<longrightarrow>
          fst (remove_duplicates st segments) ! i \<noteq> fst (remove_duplicates st segments) ! Suc i)
   \<and> fst (remove_duplicates init_stats []) = []
   \<and> removed_duplicates (snd (remove_duplicates init_stats [])) = 0"
proof -
  have "length (fst (remove_duplicates st segments)) \<le> length segments"
    by (simp add: remove_duplicates_fst)
  moreover have "\<forall>i. Suc i < length (fst (remove_duplicates st segments)) \<longrightarrow>
      fst (remove_duplicates st segments) ! i \<noteq> fst (remove_duplicates st segments) ! Suc i"
    by (simp add: remove_duplicates_fst remdups_adj_adjacent)
  moreover have "fst (remove_duplicates init_stats []) = []"
    by (simp add: remove_duplicates_def)
  moreover have "removed_duplicates (snd (remove_duplicates init_stats [])) = 0"
    by (simp add: remove_duplicates_def init_stats_def)
  ultimately show ?thesis by blast
qed

theorem remove_duplicates_length_adjacent_witness:
  "Suc 0 < length (fst (remove_duplicates init_stats [cps ''Hello.'', cps ''Hello.'', cps ''World'']))
   \<and> fst (remove_duplicates init_stats [cps ''Hello.'', cps ''Hello.'', cps ''World'']) ! 0 \<noteq>
     fst (remove_duplicates init_stats [cps ''Hello.'', cps ''Hello.'', cps ''World'']) ! Suc 0"
proof -
  have len: "Suc 0 < length (fst (remove_duplicates init_stats
      [cps ''Hello.'', cps ''Hello.'', cps ''World'']))"
    by (simp add: remove_duplicates_fst)
  with remove_duplicates_length_adjacent
    [of init_stats "[cps ''Hello.'', cps ''Hello.'', cps ''World'']"]
  show ?thesis by blast
qed

section \<open>Properties of \<open>merge_consecutive_segments\<close>\<close>

lemma merge_loop_merge_from:
  "merge_loop segments m i merged = merged @ merge_from m (drop i segments)"
proof (induction segments m i merged rule: merge_loop.induct)
  case (1 segments m i merged)
  show ?case
  proof (cases "i < length segments")
    case False
    then show ?thesis
      by (subst merge_loop.simps) simp
  next
    case True
    then have dr: "drop i segments = segments ! i # drop (Suc i) segments"
      by (simp add: Cons_nth_drop_Suc)
    show ?thesis
    proof (cases "i + 1 < length segments")
      case False
      with True have "drop (Suc i) segments = []" by simp
      with True False dr "1.IH"(2) [OF True refl] show ?thesis
        by (subst merge_loop.simps) (simp add: Let_def)
    next
      case next_exists: True
      then have dr2: "drop (Suc i) segments = segments ! (Suc i) # drop (Suc (Suc i)) segments"
        by (simp add: Cons_nth_drop_Suc)
      show ?thesis
      proof (cases "int (length (segments ! i)) < m")
        case True
        with \<open>i < length segments\<close> next_exists dr dr2 "1.IH"(1) [OF \<open>i < length segments\<close> refl]
        show ?thesis
          by (subst merge_loop.simps) (simp add: Let_def)
      next
        case False
        with \<open>i < length segments\<close> next_exists dr dr2 "1.IH"(2) [OF \<open>i < length segments\<close> refl]
        show ?thesis
          by (subst merge_loop.simps) (simp add: Let_def)
      qed
    qed
  qed
qed

lemma merge_consecutive_segments_merge_from:
  "merge_consecutive_segments segments m = merge_from m segments"
  by (simp add: merge_consecutive_segments_def merge_loop_merge_from)

lemma length_merge_from: "length (merge_from m segs) \<le> length segs"
  by (induction m segs rule: merge_from.induct) auto

lemma join_Cons: "ys \<noteq> [] \<Longrightarrow> join sep (x # ys) = x @ sep @ join sep ys"
  by (cases ys) simp_all

lemma merge_from_Nil_iff: "merge_from m segs = [] \<longleftrightarrow> segs = []"
  by (induction m segs rule: merge_from.induct) auto

lemma join_merge_from: "join [space] (merge_from m segs) = join [space] segs"
proof (induction m segs rule: merge_from.induct)
  case (3 m a b rest)
  show ?case
  proof (cases "int (length a) < m")
    case True
    with 3 show ?thesis
      by (cases "rest = []") (simp_all add: join_Cons merge_from_Nil_iff)
  next
    case False
    with 3 show ?thesis
      by (simp add: join_Cons merge_from_Nil_iff)
  qed
qed simp_all

text \<open>
  Claim C10. Merging keeps the text: the output fragments joined with single spaces are
  the input fragments joined with single spaces.
\<close>

theorem merge_consecutive_segments_join:
  "join [space] (merge_consecutive_segments segments min_length) = join [space] segments"
  by (simp add: merge_consecutive_segments_merge_from join_merge_from)

lemma merged_pair_Cons: "merged_pair segs m f \<Longrightarrow> merged_pair (a # segs) m f"
proof -
  assume "merged_pair segs m f"
  then obtain i where i: "i < length segs - 1" "int (length (segs ! i)) < m"
    "f = segs ! i @ [space] @ segs ! Suc i"
    unfolding merged_pair_def by blast
  then have "Suc i < length (a # segs) - 1 \<and> int (length ((a # segs) ! Suc i)) < m \<and>
      f = (a # segs) ! Suc i @ [space] @ (a # segs) ! Suc (Suc i)"
    by simp
  then show ?thesis
    unfolding merged_pair_def by blast
qed

lemma merge_from_fragments:
  "k < length (merge_from m segs) \<Longrightarrow>
   m \<le> int (length (merge_from m segs ! k)) \<or> merged_pair segs m (merge_from m segs ! k) \<or>
   (k = length (merge_from m segs) - 1 \<and> merge_from m segs ! k = last segs)"
proof (induction m segs arbitrary: k rule: merge_from.induct)
  case (1 m)
  then show ?case by simp
next
  case (2 m a)
  then show ?case by simp
next
  case (3 m a b rest)
  show ?case
  proof (cases "int (length a) < m")
    case short: True
    show ?thesis
    proof (cases k)
      case 0
      have "merged_pair (a # b # rest) m (a @ [space] @ b)"
        unfolding merged_pair_def using short by (intro exI [of _ 0]) simp
      with short 0 show ?thesis by simp
    next
      case (Suc j)
      with short "3.prems" have j: "j < length (merge_from m rest)" by simp
      then have ne: "rest \<noteq> []" by auto
      from "3.IH"(1) [OF short j] short Suc ne j show ?thesis
        by (auto intro: merged_pair_Cons)
    qed
  next
    case long: False
    show ?thesis
    proof (cases k)
      case 0
      with long show ?thesis by simp
    next
      case (Suc j)
      with long "3.prems" have j: "j < length (merge_from m (b # rest))" by simp
      from "3.IH"(2) [OF long j] long Suc j show ?thesis
        by (auto intro: merged_pair_Cons)
    qed
  qed
qed

text \<open>
  Claim C2, as stated, fails: with threshold 10 the fragments \<open>a\<close>, \<open>b\<close>, \<open>c\<close> give
  \<open>a b\<close>, \<open>c\<close>, and \<open>a b\<close> is shorter than the threshold without being the final
  unmerged remainder.
\<close>

theorem merge_consecutive_segments_short_counterexample:
  "merge_consecutive_segments [cps ''a'', cps ''b'', cps ''c''] 10 = [cps ''a b'', cps ''c'']
   \<and> \<not> (10 \<le> int (length (merge_consecutive_segments [cps ''a'', cps ''b'', cps ''c''] 10 ! 0))
        \<or> (0 = length (merge_consecutive_segments [cps ''a'', cps ''b'', cps ''c''] 10) - 1
           \<and> merge_consecutive_segments [cps ''a'', cps ''b'', cps ''c''] 10 ! 0 =
               last [cps ''a'', cps ''b'', cps ''c'']))"
  by (simp add: merge_consecutive_segments_merge_from space_def)

text \<open>
  Claim C2, amended. The output of \<open>merge_consecutive_segments\<close> is no longer than its
  input, and every output fragment is at least as long as the threshold, or is a short
  input fragment joined by one space to its successor (whatever the length of the result),
  or is the last output fragment and is the last input fragment unchanged.
\<close>

theorem merge_consecutive_segments_length_fragments:
  "length (merge_consecutive_segments segments min_length) \<le> length segments
   \<and> (\<forall>k < length (merge_consecutive_segments segments min_length).
        min_length \<le> int (length (merge_consecutive_segments segments min_length ! k))
        \<or> (\<exists>i < length segments - 1. int (length (segments ! i)) < min_length
              \<and> merge_consecutive_segments segments min_length ! k =
                  segments ! i @ [space] @ segments ! Suc i)
        \<or> (k = length (merge_consecutive_segments segments min_length) - 1
           \<and> merge_consecutive_segments segments min_length ! k = last segments))"
  using length_merge_from [of min_length segments] merge_from_fragments [of _ min_length segments]
  by (simp add: merge_consecutive_segments_merge_from merged_pair_def)

theorem merge_consecutive_segments_length_fragments_witness:
  "Suc 0 < length (merge_consecutive_segments [cps ''a'', cps ''b'', cps ''c''] 10)
   \<and> merge_consecutive_segments [cps ''a'', cps ''b'', cps ''c''] 10 ! Suc 0 =
       last [cps ''a'', cps ''b'', cps ''c'']
   \<and> length (merge_consecutive_segments [cps ''a'', cps ''b'', cps ''c''] 10) \<le> 3"
proof -
  have len: "Suc 0 < length (merge_consecutive_segments [cps ''a'', cps ''b'', cps ''c''] 10)"
    by (simp add: merge_consecutive_segments_merge_from)
  have val: "merge_consecutive_segments [cps ''a'', cps ''b'', cps ''c''] 10 ! Suc 0 =
       last [cps ''a'', cps ''b'', cps ''c'']"
    by (simp add: merge_consecutive_segments_merge_from)
  from merge_consecutive_segments_length_fragments [of "[cps ''a'', cps ''b'', cps ''c'']" 10]
  have "length (merge_consecutive_segments [cps ''a'', cps ''b'', cps ''c''] 10)
      \<le> length [cps ''a'', cps ''b'', cps ''c'']"
    by blast
  with len val show ?thesis by simp
qed

section \<open>Properties of the span removal\<close>

lemma find_close_Some_iff:
  "find_close closer cs \<noteq> None \<longleftrightarrow>
     (\<exists>mid post. cs = mid @ closer # post \<and> newline \<notin> set mid)"
proof (induction cs)
  case Nil
  then show ?case by simp
next
  case (Cons c cs)
  show ?case
  proof (cases "c = closer")
    case True
    then have "c # cs = [] @ closer # cs \<and> newline \<notin> set []" by simp
    then have "\<exists>mid post. c # cs = mid @ closer # post \<and> newline \<notin> set mid" by blast
    with True show ?thesis by simp
  next
    case False
    have "(\<exists>mid post. c # cs = mid @ closer # post \<and> newline \<notin> set mid) \<longleftrightarrow>
          (c \<noteq> newline \<and> (\<exists>mid post. cs = mid @ closer # post \<and> newline \<notin> set mid))"
    proof
      assume "\<exists>mid post. c # cs = mid @ closer # post \<and> newline \<notin> set mid"
      then obtain mid post where e: "c # cs = mid @ closer # post" "newline \<notin> set mid" by blast
      with False obtain mid' where "mid = c # mid'" by (cases mid) auto
      with e show "c \<noteq> newline \<and> (\<exists>mid post. cs = mid @ closer # post \<and> newline \<notin> set mid)"
        by auto
    next
      assume "c \<noteq> newline \<and> (\<exists>mid post. cs = mid @ closer # post \<and> newline \<notin> set mid)"
      then obtain mid post where e: "c \<noteq> newline" "cs = mid @ closer # post" "newline \<notin> set mid"
        by blast
      then have "c # cs = (c # mid) @ closer # post \<and> newline \<notin> set (c # mid)" by simp
      then show "\<exists>mid post. c # cs = mid @ closer # post \<and> newline \<notin> set mid" by blast
    qed
    with False Cons show ?thesis by simp
  qed
qed

lemma has_span_iff:
  "has_span opener closer t \<longleftrightarrow>
     (\<exists>pre mid post. t = pre @ opener # mid @ closer # post \<and> newline \<notin> set mid)"
proof (induction t)
  case Nil
  then show ?case by simp
next
  case (Cons c cs)
  have "(\<exists>pre mid post. c # cs = pre @ opener # mid @ closer # post \<and> newline \<notin> set mid) \<longleftrightarrow>
        (c = opener \<and> (\<exists>mid post. cs = mid @ closer # post \<and> newline \<notin> set mid)) \<or>
        (\<exists>pre mid post. cs = pre @ opener # mid @ closer # post \<and> newline \<notin> set mid)"
    (is "?L \<longleftrightarrow> ?A \<or> ?B")
  proof
    assume ?L
    then obtain pre mid post where e: "c # cs = pre @ opener # mid @ closer # post"
      "newline \<notin> set mid" by blast
    show "?A \<or> ?B"
    proof (cases pre)
      case Nil
      with e have "c = opener \<and> cs = mid @ closer # post" by simp
      with e(2) show ?thesis by blast
    next
      case (Cons p pre')
      with e have "cs = pre' @ opener # mid @ closer # post" by simp
      with e(2) show ?thesis by blast
    qed
  next
    assume "?A \<or> ?B"
    then show ?L
    proof
      assume ?A
      then obtain mid post where "c = opener" "cs = mid @ closer # post" "newline \<notin> set mid"
        by blast
      then have "c # cs = [] @ opener # mid @ closer # post \<and> newline \<notin> set mid" by simp
      then show ?L by blast
    next
      assume ?B
      then obtain pre mid post where "cs = pre @ opener # mid @ closer # post"
        "newline \<notin> set mid" by blast
      then have "c # cs = (c # pre) @ opener # mid @ closer # post \<and> newline \<notin> set mid" by simp
      then show ?L by blast
    qed
  qed
  with Cons find_close_Some_iff [of closer cs] show ?case by simp
qed

lemma find_close_rest_None:
  "closer' \<noteq> newline \<Longrightarrow> find_close closer' cs = Some rest \<Longrightarrow>
   find_close closer cs = None \<Longrightarrow> find_close closer rest = None"
  by (induction cs) (auto split: if_splits)

lemma find_close_remove_span_None:
  "opener' \<noteq> newline \<Longrightarrow> closer' \<noteq> newline \<Longrightarrow> find_close closer cs = None \<Longrightarrow>
   find_close closer (remove_span opener' closer' cs) = None"
proof (induction opener' closer' cs rule: remove_span.induct)
  case (1 opener' closer')
  then show ?case by simp
next
  case (2 opener' closer' c cs)
  note nl = \<open>opener' \<noteq> newline\<close> \<open>closer' \<noteq> newline\<close>
  show ?case
  proof (cases "c = opener' \<and> find_close closer' cs \<noteq> None")
    case True
    then obtain rest where c: "c = opener'" and rest: "find_close closer' cs = Some rest"
      by auto
    from c nl "2.prems"(3) have "find_close closer cs = None"
      by (auto split: if_splits)
    with rest nl have "find_close closer rest = None"
      by (auto dest: find_close_rest_None)
    from "2.IH"(2) [OF c rest nl this] c rest show ?thesis by simp
  next
    case False
    then have step: "remove_span opener' closer' (c # cs) = c # remove_span opener' closer' cs"
      by (auto split: option.splits)
    show ?thesis
    proof (cases "c = newline")
      case True
      with step "2.prems"(3) show ?thesis by (auto split: if_splits)
    next
      case c_nl: False
      with "2.prems"(3) have tail: "find_close closer cs = None" and "c \<noteq> closer"
        by (auto split: if_splits)
      have "find_close closer (remove_span opener' closer' cs) = None"
      proof (cases "c = opener'")
        case True
        with False have "find_close closer' cs = None" by simp
        from "2.IH"(1) [OF True this nl tail] show ?thesis .
      next
        case False
        from "2.IH"(3) [OF False nl tail] show ?thesis .
      qed
      with step c_nl \<open>c \<noteq> closer\<close> show ?thesis by simp
    qed
  qed
qed

lemma has_span_rest:
  "find_close closer' cs = Some rest \<Longrightarrow> has_span opener closer rest \<Longrightarrow>
   has_span opener closer cs"
  by (induction cs) (auto split: if_splits)

lemma remove_span_keeps_no_span:
  "opener' \<noteq> newline \<Longrightarrow> closer' \<noteq> newline \<Longrightarrow> \<not> has_span opener closer t \<Longrightarrow>
   \<not> has_span opener closer (remove_span opener' closer' t)"
proof (induction opener' closer' t rule: remove_span.induct)
  case (1 opener' closer')
  then show ?case by simp
next
  case (2 opener' closer' c cs)
  note nl = \<open>opener' \<noteq> newline\<close> \<open>closer' \<noteq> newline\<close>
  from "2.prems"(3) have tail: "\<not> has_span opener closer cs" by simp
  show ?case
  proof (cases "c = opener' \<and> find_close closer' cs \<noteq> None")
    case True
    then obtain rest where c: "c = opener'" and rest: "find_close closer' cs = Some rest"
      by auto
    with tail have "\<not> has_span opener closer rest"
      using has_span_rest by blast
    from "2.IH"(2) [OF c rest nl this] c rest show ?thesis by simp
  next
    case False
    then have step: "remove_span opener' closer' (c # cs) = c # remove_span opener' closer' cs"
      by (auto split: option.splits)
    have head: "c = opener \<Longrightarrow> find_close closer (remove_span opener' closer' cs) = None"
      using "2.prems"(3) nl find_close_remove_span_None [of opener' closer' closer cs] by auto
    have "\<not> has_span opener closer (remove_span opener' closer' cs)"
    proof (cases "c = opener'")
      case True
      with False have "find_close closer' cs = None" by simp
      from "2.IH"(1) [OF True this nl tail] show ?thesis .
    next
      case False
      from "2.IH"(3) [OF False nl tail] show ?thesis .
    qed
    with head step show ?thesis by auto
  qed
qed

lemma remove_span_no_own_span:
  "opener \<noteq> newline \<Longrightarrow> closer \<noteq> newline \<Longrightarrow>
   \<not> has_span opener closer (remove_span opener closer t)"
proof (induction opener closer t rule: remove_span.induct)
  case (1 opener closer)
  then show ?case by simp
next
  case (2 opener closer c cs)
  note nl = \<open>opener \<noteq> newline\<close> \<open>closer \<noteq> newline\<close>
  show ?case
  proof (cases "c = opener")
    case False
    from "2.IH"(3) [OF False nl] False show ?thesis by simp
  next
    case True
    show ?thesis
    proof (cases "find_close closer cs")
      case None
      from "2.IH"(1) [OF True None nl] True None
        find_close_remove_span_None [OF nl None]
      show ?thesis by simp
    next
      case (Some rest)
      from "2.IH"(2) [OF True Some nl] True Some show ?thesis by simp
    qed
  qed
qed

text \<open>
  On a single line the three removals are exhaustive: in their result no opening bracket
  is followed by a closing bracket with no line feed between the two, and likewise for
  parentheses and for angle brackets. A span is missed only when a line feed stands inside
  it.
\<close>

lemma remove_spans_no_span_on_line:
  "\<not> (\<exists>pre mid post. remove_spans text = pre @ [91] @ mid @ [93] @ post \<and> newline \<notin> set mid)
   \<and> \<not> (\<exists>pre mid post. remove_spans text = pre @ [40] @ mid @ [41] @ post \<and> newline \<notin> set mid)
   \<and> \<not> (\<exists>pre mid post. remove_spans text = pre @ [60] @ mid @ [62] @ post \<and> newline \<notin> set mid)"
proof -
  have nl: "(91::nat) \<noteq> newline" "(93::nat) \<noteq> newline" "(40::nat) \<noteq> newline"
    "(41::nat) \<noteq> newline" "(60::nat) \<noteq> newline" "(62::nat) \<noteq> newline"
    by (simp_all add: newline_def)
  have "\<not> has_span 91 93 (remove_span 91 93 text)"
    by (rule remove_span_no_own_span [OF nl(1,2)])
  then have "\<not> has_span 91 93 (remove_span 40 41 (remove_span 91 93 text))"
    by (rule remove_span_keeps_no_span [OF nl(3,4)])
  then have a: "\<not> has_span 91 93 (remove_spans text)"
    unfolding remove_spans_def by (rule remove_span_keeps_no_span [OF nl(5,6)])
  have "\<not> has_span 40 41 (remove_span 40 41 (remove_span 91 93 text))"
    by (rule remove_span_no_own_span [OF nl(3,4)])
  then have b: "\<not> has_span 40 41 (remove_spans text)"
    unfolding remove_spans_def by (rule remove_span_keeps_no_span [OF nl(5,6)])
  have c: "\<not> has_span 60 62 (remove_spans text)"
    unfolding remove_spans_def by (rule remove_span_no_own_span [OF nl(5,6)])
  from a b c show ?thesis
    by (simp add: has_span_iff)
qed

text \<open>
  Claim C4 does not hold of the code. With paragraph formatting on, the fragments \<open>[a.\<close>,
  \<open>b.\<close>, \<open>c.\<close>, \<open>d]\<close> are one bracket span; \<open>format_paragraphs\<close> closes a paragraph after
  the third sentence and puts two line feeds inside the span, the pattern \<open>\[.*?\]\<close> does
  not match across a line feed, and the text after the three removals still holds the
  complete span, which the final text shows on one line. With paragraph formatting off the
  same fragments are joined by spaces and the span is removed.
\<close>

theorem remove_spans_misses_span_across_paragraphs:
  "format_paragraphs U [cps ''[a.'', cps ''b.'', cps ''c.'', cps ''d]''] =
     cps ''[a. b. c.'' @ [newline, newline] @ cps ''d]''
   \<and> remove_spans (format_paragraphs U [cps ''[a.'', cps ''b.'', cps ''c.'', cps ''d]'']) =
     [91] @ cps ''a. b. c.'' @ [newline, newline] @ cps ''d'' @ [93]
   \<and> clean_text (format_paragraphs U [cps ''[a.'', cps ''b.'', cps ''c.'', cps ''d]'']) None =
     Inr (cps ''[a. b. c. d]'')
   \<and> clean_text (join [space] [cps ''[a.'', cps ''b.'', cps ''c.'', cps ''d]'']) None = Inr []"
proof -
  have f: "format_paragraphs U [cps ''[a.'', cps ''b.'', cps ''c.'', cps ''d]''] =
     cps ''[a. b. c.'' @ [newline, newline] @ cps ''d]''"
    by (simp add: format_paragraphs_def sentences_of_def split_sentences_def
        group_paragraphs_def is_space_def is_mark_def is_word_def space_def newline_def
        ends_paragraph_def endswith_def strip_def Let_def)
  have r: "remove_spans (cps ''[a. b. c.'' @ [newline, newline] @ cps ''d]'') =
     [91] @ cps ''a. b. c.'' @ [newline, newline] @ cps ''d'' @ [93]"
    by (simp add: remove_spans_def newline_def)
  have c: "clean_text (cps ''[a. b. c.'' @ [newline, newline] @ cps ''d]'') None =
     Inr (cps ''[a. b. c. d]'')"
    by (simp add: clean_text_def remove_spans_def is_space_def space_def newline_def
        strip_def Let_def)
  have j: "clean_text (join [space] [cps ''[a.'', cps ''b.'', cps ''c.'', cps ''d]'']) None =
     Inr []"
    by (simp add: clean_text_def remove_spans_def is_space_def space_def newline_def
        strip_def Let_def)
  from f r c j show ?thesis by simp
qed

section \<open>Properties of \<open>format_paragraphs\<close> and \<open>clean_text\<close>\<close>

lemma sentence_groups_loop_paragraphs:
  "paragraph_loop U sentences (map (join [space]) groups) cur =
     (map (join [space]) (fst (sentence_groups_loop U sentences groups cur)),
      snd (sentence_groups_loop U sentences groups cur))"
proof (induction sentences arbitrary: groups cur)
  case Nil
  then show ?case by simp
next
  case (Cons s sentences)
  have "map (join [space]) groups @ [join [space] (cur @ [strip s])] =
        map (join [space]) (groups @ [cur @ [strip s]])"
    by simp
  with Cons [of "groups @ [cur @ [strip s]]" "[]"] Cons [of groups "cur @ [strip s]"]
    Cons [of groups cur]
  show ?case
    by (simp add: Let_def del: map_append)
qed

lemma group_paragraphs_groups:
  "group_paragraphs U sentences = map (join [space]) (sentence_groups U sentences)"
  using sentence_groups_loop_paragraphs [of U sentences "[]" "[]"]
  by (simp add: group_paragraphs_def sentence_groups_def case_prod_unfold)

lemma sentence_groups_loop_concat:
  "concat (fst (sentence_groups_loop U sentences groups cur)) @
     snd (sentence_groups_loop U sentences groups cur) =
   concat groups @ cur @ filter (\<lambda>s. s \<noteq> []) (map strip sentences)"
  by (induction sentences arbitrary: groups cur) (simp_all add: Let_def)

lemma sentence_groups_concat:
  "concat (sentence_groups U sentences) = filter (\<lambda>s. s \<noteq> []) (map strip sentences)"
  using sentence_groups_loop_concat [of U sentences "[]" "[]"]
  by (auto simp: sentence_groups_def case_prod_unfold)

lemma sentence_groups_loop_nonempty:
  "[] \<notin> set groups \<Longrightarrow> [] \<notin> set (fst (sentence_groups_loop U sentences groups cur))"
  by (induction sentences arbitrary: groups cur) (simp_all add: Let_def)

lemma sentence_groups_nonempty: "[] \<notin> set (sentence_groups U sentences)"
  using sentence_groups_loop_nonempty [of "[]" U sentences "[]"]
  by (simp add: sentence_groups_def case_prod_unfold)

lemma set_collapse_whitespace:
  "set (collapse_whitespace t) \<subseteq> {c. c \<in> set t \<and> \<not> is_space c} \<union> {space}"
proof (induction t rule: collapse_whitespace.induct)
  case 1
  then show ?case by simp
next
  case (2 c cs)
  have "set (dropWhile is_space cs) \<subseteq> set cs"
    using set_dropWhileD [of _ is_space cs] by auto
  with 2 show ?case by auto
qed

lemma find_close_set: "find_close closer cs = Some rest \<Longrightarrow> set rest \<subseteq> set cs"
  by (induction cs) (auto split: if_splits)

lemma set_remove_span: "set (remove_span opener closer t) \<subseteq> set t"
proof (induction opener closer t rule: remove_span.induct)
  case (1 opener closer)
  then show ?case by simp
next
  case (2 opener closer c cs)
  show ?case
  proof (cases "c = opener")
    case False
    with "2.IH"(3) show ?thesis by auto
  next
    case True
    show ?thesis
    proof (cases "find_close closer cs")
      case None
      with True "2.IH"(1) show ?thesis by auto
    next
      case (Some rest)
      with True "2.IH"(2) [OF True Some] find_close_set [OF Some] show ?thesis by auto
    qed
  qed
qed

lemma set_remove_spans: "set (remove_spans t) \<subseteq> set t"
  using set_remove_span [of 60 62 "remove_span 40 41 (remove_span 91 93 t)"]
    set_remove_span [of 40 41 "remove_span 91 93 t"] set_remove_span [of 91 93 t]
  unfolding remove_spans_def by blast

lemma set_strip: "set (strip t) \<subseteq> set t"
proof -
  have "set (strip t) \<subseteq> set (dropWhile is_space t)"
    unfolding strip_def using set_dropWhileD [of _ is_space "rev (dropWhile is_space t)"] by auto
  also have "\<dots> \<subseteq> set t"
    using set_dropWhileD [of _ is_space t] by auto
  finally show ?thesis .
qed

lemma set_sub_remove_space_between: "set (sub_remove_space_between cls t) \<subseteq> set t"
proof (induction cls t rule: sub_remove_space_between.induct)
  case (1 cls)
  then show ?case by simp
next
  case (2 cls c cs)
  show ?case
  proof (cases "cls c \<and> cs \<noteq> [] \<and> is_space (hd cs)")
    case False
    with "2.IH"(4) show ?thesis by auto
  next
    case True
    show ?thesis
    proof (cases "dropWhile is_space cs")
      case Nil
      with True have "sub_remove_space_between cls (c # cs) = c # sub_remove_space_between cls cs"
        by (simp del: dropWhile_eq_Nil_conv)
      with "2.IH"(1) [OF True Nil] show ?thesis by auto
    next
      case (Cons d rest)
      then have sub: "set (d # rest) \<subseteq> set cs"
        using set_dropWhileD [of _ is_space cs] by auto
      show ?thesis
      proof (cases "cls d")
        case yes: True
        from "2.IH"(2) [OF True Cons yes] True Cons yes sub show ?thesis by auto
      next
        case no: False
        from "2.IH"(3) [OF True Cons no] True Cons no show ?thesis by auto
      qed
    qed
  qed
qed

lemma set_sub_insert_space_between:
  "set (sub_insert_space_between cls1 cls2 t) \<subseteq> set t \<union> {space}"
  by (induction cls1 cls2 t rule: sub_insert_space_between.induct) auto

lemma set_language_specific_cleaning:
  "language_specific_cleaning t code = Inr t' \<Longrightarrow> set t' \<subseteq> set t \<union> {space}"
proof -
  have "set (sub_insert_space_between is_latin_digit is_cjk
          (sub_insert_space_between is_cjk is_latin_digit (sub_remove_space_between is_cjk t)))
        \<subseteq> set t \<union> {space}"
    using set_sub_insert_space_between [of is_latin_digit is_cjk
        "sub_insert_space_between is_cjk is_latin_digit (sub_remove_space_between is_cjk t)"]
      set_sub_insert_space_between [of is_cjk is_latin_digit "sub_remove_space_between is_cjk t"]
      set_sub_remove_space_between [of is_cjk t]
    by blast
  moreover assume "language_specific_cleaning t code = Inr t'"
  ultimately show ?thesis
    using set_sub_remove_space_between [of is_japanese t]
    by (auto simp: language_specific_cleaning_def split: if_splits)
qed

lemma set_clean_text:
  "clean_text t lang = Inr t' \<Longrightarrow> set t' \<subseteq> {c. c \<in> set t \<and> \<not> is_space c} \<union> {space}"
proof -
  assume run: "clean_text t lang = Inr t'"
  let ?t = "strip (collapse_whitespace (remove_spans t))"
  have "set ?t \<subseteq> {c. c \<in> set t \<and> \<not> is_space c} \<union> {space}"
    using set_strip [of "collapse_whitespace (remove_spans t)"]
      set_collapse_whitespace [of "remove_spans t"] set_remove_spans [of t]
    by blast
  moreover have "set t' \<subseteq> set ?t \<union> {space}"
    using run set_language_specific_cleaning [of ?t _ t']
    by (auto simp: clean_text_def Let_def split: option.splits if_splits)
  ultimately show ?thesis by blast
qed

lemma clean_text_no_newline:
  "case clean_text t lang of Inl e \<Rightarrow> True | Inr t' \<Rightarrow> newline \<notin> set t'"
proof (cases "clean_text t lang")
  case (Inl e)
  then show ?thesis by simp
next
  case (Inr t')
  have "is_space newline" "newline \<noteq> space"
    by (simp_all add: is_space_def newline_def space_def)
  with set_clean_text [OF Inr] Inr show ?thesis by auto
qed

lemma bind_err_simps [simp]:
  "bind_err (Inl e) f = Inl e" "bind_err (Inr x) f = f x"
  by (simp_all add: bind_err_def)

lemma process_file_no_newline:
  "case process_file U writable elapsed st opts raw of
     Inl e \<Rightarrow> True
   | Inr (text, st') \<Rightarrow> newline \<notin> set text"
proof (cases "process_file U writable elapsed st opts raw")
  case (Inl e)
  then show ?thesis by simp
next
  case (Inr r)
  obtain t st' where r: "r = (t, st')" by (cases r)
  from Inr r obtain t0 lang where "clean_text t0 lang = Inr t"
    by (auto simp: process_file_def bind_err_def Let_def case_prod_unfold
        split: sum.splits)
  with clean_text_no_newline [of t0 lang] have "newline \<notin> set t" by simp
  with Inr r show ?thesis by simp
qed

text \<open>
  Claim C1 does not hold of the code. \<open>format_paragraphs\<close> joins the paragraphs with two
  line feeds, and \<open>clean_text\<close>, which runs on its result, replaces every run of whitespace
  by one space, line feeds included: the four fragments \<open>A.\<close>, \<open>B.\<close>, \<open>C.\<close>, \<open>D.\<close> are
  formatted as two paragraphs, and the final text is one line. No text returned by
  \<open>clean_text\<close> or by \<open>process_file\<close> holds a line feed.
\<close>

theorem clean_text_collapses_paragraph_breaks:
  "format_paragraphs U [cps ''A.'', cps ''B.'', cps ''C.'', cps ''D.''] =
     cps ''A. B. C.'' @ [newline, newline] @ cps ''D.''
   \<and> clean_text (format_paragraphs U [cps ''A.'', cps ''B.'', cps ''C.'', cps ''D.'']) None =
     Inr (cps ''A. B. C. D.'')
   \<and> (case clean_text t lang of Inl e \<Rightarrow> True | Inr t' \<Rightarrow> newline \<notin> set t')
   \<and> (case process_file U writable elapsed st opts raw of
        Inl e \<Rightarrow> True
      | Inr (text, st') \<Rightarrow> newline \<notin> set text)"
proof -
  have f: "format_paragraphs U [cps ''A.'', cps ''B.'', cps ''C.'', cps ''D.''] =
     cps ''A. B. C.'' @ [newline, newline] @ cps ''D.''"
    by (simp add: format_paragraphs_def sentences_of_def split_sentences_def
        group_paragraphs_def is_space_def is_mark_def is_word_def space_def newline_def
        ends_paragraph_def endswith_def strip_def Let_def)
  have "clean_text (cps ''A. B. C.'' @ [newline, newline] @ cps ''D.'') None =
     Inr (cps ''A. B. C. D.'')"
    by (simp add: clean_text_def remove_spans_def is_space_def space_def newline_def
        strip_def Let_def)
  with f show ?thesis
    using clean_text_no_newline [of t lang]
      process_file_no_newline [of U writable elapsed st opts raw]
    by simp
qed

text \<open>
  Trimmed fragments give trimmed sentences: the join, the two substitutions and the split
  keep the first and the last character of the text, and every piece of the split starts
  behind a run of whitespace and ends with a mark or with the text.
\<close>

lemma strip_trimmed: "trimmed s \<Longrightarrow> strip s = s"
proof -
  assume t: "trimmed s"
  then have "dropWhile is_space s = s"
    by (cases s) (simp_all add: trimmed_def)
  moreover from t have "dropWhile is_space (rev s) = rev s"
    by (cases "rev s") (auto simp: trimmed_def hd_rev [symmetric] simp del: rev_is_Nil_conv)
  ultimately show ?thesis by (simp add: strip_def)
qed

lemma trimmed_strip: "strip s \<noteq> [] \<Longrightarrow> trimmed (strip s)"
proof -
  assume ne: "strip s \<noteq> []"
  let ?r = "dropWhile is_space (rev (dropWhile is_space s))"
  from ne have r: "?r \<noteq> []" by (simp add: strip_def)
  then have "\<not> is_space (hd ?r)" by (rule hd_dropWhile)
  with r have last: "\<not> is_space (last (strip s))"
    by (simp add: strip_def last_rev)
  have d: "dropWhile is_space s \<noteq> []"
  proof
    assume "dropWhile is_space s = []"
    then have "?r = []" by (simp only: rev.simps dropWhile.simps)
    with r show False by simp
  qed
  then have h: "\<not> is_space (hd (dropWhile is_space s))" by (rule hd_dropWhile)
  have "\<exists>zs. rev (dropWhile is_space s) = zs @ ?r"
    by (metis takeWhile_dropWhile_id)
  then obtain zs where "rev (dropWhile is_space s) = zs @ ?r" by blast
  then have "dropWhile is_space s = rev ?r @ rev zs"
    by (metis rev_append rev_rev_ident)
  with r have "hd (dropWhile is_space s) = hd (rev ?r)"
    by (metis hd_append2 rev_is_Nil_conv)
  with h have "\<not> is_space (hd (strip s))" by (simp add: strip_def)
  with ne last show ?thesis by (simp add: trimmed_def)
qed

lemma join_trimmed:
  "segs \<noteq> [] \<Longrightarrow> list_all trimmed segs \<Longrightarrow> trimmed (join [space] segs)"
proof (induction segs)
  case Nil
  then show ?case by simp
next
  case (Cons x segs)
  show ?case
  proof (cases "segs = []")
    case True
    with Cons.prems show ?thesis by simp
  next
    case False
    with Cons have "trimmed (join [space] segs)" "trimmed x" by simp_all
    with False show ?thesis
      by (simp add: join_Cons trimmed_def)
  qed
qed

lemma last_dropWhile: "dropWhile P xs \<noteq> [] \<Longrightarrow> last (dropWhile P xs) = last xs"
  by (metis last_appendR takeWhile_dropWhile_id)

lemma dropWhile_nonempty_last: "xs \<noteq> [] \<Longrightarrow> \<not> P (last xs) \<Longrightarrow> dropWhile P xs \<noteq> []"
  by (metis dropWhile_eq_Nil_conv last_in_set)

lemma sub_space_before_mark_last:
  "t \<noteq> [] \<Longrightarrow> \<not> is_space (last t) \<Longrightarrow>
   sub_space_before_mark t \<noteq> [] \<and> last (sub_space_before_mark t) = last t"
proof (induction t rule: sub_space_before_mark.induct)
  case 1
  then show ?case by simp
next
  case (2 c cs)
  show ?case
  proof (cases "is_space c")
    case False
    show ?thesis
    proof (cases "cs = []")
      case True
      with False show ?thesis by simp
    next
      case ne: False
      with "2.prems" have "\<not> is_space (last cs)" by simp
      from "2.IH"(4) [OF False ne this] False ne show ?thesis by simp
    qed
  next
    case True
    with "2.prems" have ne: "cs \<noteq> []" by auto
    with "2.prems" have lc: "\<not> is_space (last cs)" by simp
    from dropWhile_nonempty_last [where P = is_space, OF ne lc] obtain p rest
      where d: "dropWhile is_space cs = p # rest" by (cases "dropWhile is_space cs") auto
    then have lp: "last (p # rest) = last cs"
      using last_dropWhile [of is_space cs] by simp
    show ?thesis
    proof (cases "is_mark p")
      case no: False
      from "2.IH"(3) [OF True d no ne lc] True d no ne show ?thesis by simp
    next
      case yes: True
      show ?thesis
      proof (cases "rest = []")
        case True
        with \<open>is_space c\<close> d yes lp ne show ?thesis by simp
      next
        case rne: False
        with lp lc have "\<not> is_space (last rest)" by simp
        from "2.IH"(2) [OF True d yes rne this] True d yes rne lp ne show ?thesis by simp
      qed
    qed
  qed
qed

lemma sub_space_before_mark_hd:
  "t \<noteq> [] \<Longrightarrow> \<not> is_space (hd t) \<Longrightarrow> hd (sub_space_before_mark t) = hd t"
  by (cases t) simp_all

lemma sub_space_before_mark_trimmed: "trimmed t \<Longrightarrow> trimmed (sub_space_before_mark t)"
  using sub_space_before_mark_last [of t] sub_space_before_mark_hd [of t]
  by (simp add: trimmed_def)

lemma sub_mark_word_last:
  "t \<noteq> [] \<Longrightarrow> sub_mark_word U t \<noteq> [] \<and> last (sub_mark_word U t) = last t \<and>
     hd (sub_mark_word U t) = hd t"
  by (induction U t rule: sub_mark_word.induct) auto

lemma sub_mark_word_trimmed: "trimmed t \<Longrightarrow> trimmed (sub_mark_word U t)"
  using sub_mark_word_last [of t U] by (simp add: trimmed_def)

lemma mark_not_space: "is_mark c \<Longrightarrow> \<not> is_space c"
  by (auto simp: is_mark_def is_space_def)

lemma split_sentences_loop_trimmed:
  "split_inv prev piece rest \<Longrightarrow> list_all trimmed (split_sentences_loop prev piece rest)"
proof (induction prev piece rest rule: split_sentences_loop.induct)
  case (1 prev piece)
  then show ?case by (auto simp: split_inv_def trimmed_def split: if_splits)
next
  case (2 prev piece c cs)
  note inv = "2.prems"
  show ?case
  proof (cases "(case prev of None \<Rightarrow> False | Some p \<Rightarrow> is_mark p) \<and> is_space c")
    case True
    then obtain p where p: "prev = Some p" "is_mark p" and c: "is_space c"
      by (cases prev) auto
    with inv have pne: "piece \<noteq> []" by (auto simp: split_inv_def)
    with inv p have tp: "trimmed piece"
      by (auto simp: split_inv_def trimmed_def dest: mark_not_space)
    from inv c have cne: "cs \<noteq> []" and lc: "\<not> is_space (last cs)"
      by (auto simp: split_inv_def split: if_splits)
    from dropWhile_nonempty_last [where P = is_space, OF cne lc] have dne: "dropWhile is_space cs \<noteq> []" .
    have sp: "is_space (last (c # takeWhile is_space cs))"
      using c by (metis last_in_set list.distinct(1) set_ConsD set_takeWhileD)
    have "split_inv (Some (last (c # takeWhile is_space cs))) [] (dropWhile is_space cs)"
      unfolding split_inv_def
      using dne hd_dropWhile [OF dne] last_dropWhile [OF dne] lc sp
      by (auto dest: mark_not_space)
    from "2.IH"(1) [OF True this] True tp show ?thesis by simp
  next
    case False
    have "split_inv (Some c) (piece @ [c]) cs"
      using inv unfolding split_inv_def by (auto split: if_splits)
    from "2.IH"(2) [OF False this] False show ?thesis by auto
  qed
qed

lemma split_sentences_trimmed: "trimmed t \<Longrightarrow> list_all trimmed (split_sentences t)"
  unfolding split_sentences_def
  by (rule split_sentences_loop_trimmed) (simp add: split_inv_def trimmed_def)

lemma sentences_of_trimmed:
  "segments \<noteq> [] \<Longrightarrow> list_all trimmed segments \<Longrightarrow> list_all trimmed (sentences_of U segments)"
  unfolding sentences_of_def
  by (intro split_sentences_trimmed sub_mark_word_trimmed sub_space_before_mark_trimmed
      join_trimmed)

lemma filter_strip_trimmed:
  "list_all trimmed xs \<Longrightarrow> filter (\<lambda>s. s \<noteq> []) (map strip xs) = xs"
  by (induction xs) (auto simp: strip_trimmed, simp add: trimmed_def)

text \<open>
  The fragments of a run are trimmed: extraction keeps only the trimmed texts that are not
  empty, removing duplicates keeps fragments, and merging joins two of them by a space.
\<close>

lemma py_strip_trimmed: "py_strip v = Inr t \<Longrightarrow> t \<noteq> [] \<Longrightarrow> trimmed t"
  by (cases v) (auto simp: py_strip_def dest: trimmed_strip)

lemma extract_segs_trimmed:
  "list_all trimmed segments \<Longrightarrow> extract_segs segs segments = Inr out \<Longrightarrow>
   list_all trimmed out"
proof (induction segs arbitrary: segments)
  case Nil
  then show ?case by simp
next
  case (Cons seg segs)
  note acc = Cons.prems(1) and run = Cons.prems(2)
  show ?case
  proof (cases "py_in (cps ''utf8'') seg")
    case (Inl e)
    with run show ?thesis by simp
  next
    case present: (Inr present)
    show ?thesis
    proof (cases present)
      case False
      with present run have "extract_segs segs segments = Inr out" by simp
      with acc show ?thesis by (rule Cons.IH)
    next
      case True
      show ?thesis
      proof (cases "py_getitem seg (cps ''utf8'')")
        case (Inl e)
        with present True run show ?thesis by simp
      next
        case item: (Inr utf8)
        show ?thesis
        proof (cases "py_strip utf8")
          case (Inl e)
          with present True item run show ?thesis by simp
        next
          case stripped: (Inr t)
          show ?thesis
          proof (cases "t = []")
            case True
            with present \<open>present\<close> item stripped run
            have "extract_segs segs segments = Inr out" by simp
            with acc show ?thesis by (rule Cons.IH)
          next
            case False
            with present \<open>present\<close> item stripped run
            have r: "extract_segs segs (segments @ [t]) = Inr out" by simp
            from py_strip_trimmed [OF stripped False] acc
            have "list_all trimmed (segments @ [t])" by simp
            from this r show ?thesis by (rule Cons.IH)
          qed
        qed
      qed
    qed
  qed
qed

lemma extract_events_trimmed:
  "list_all trimmed segments \<Longrightarrow> extract_events events segments = Inr out \<Longrightarrow>
   list_all trimmed out"
proof (induction events arbitrary: segments)
  case Nil
  then show ?case by simp
next
  case (Cons event events)
  note acc = Cons.prems(1) and run = Cons.prems(2)
  show ?case
  proof (cases "py_in (cps ''segs'') event")
    case (Inl e)
    with run show ?thesis by simp
  next
    case present: (Inr present)
    show ?thesis
    proof (cases present)
      case False
      with present run have "extract_events events segments = Inr out" by simp
      with acc show ?thesis by (rule Cons.IH)
    next
      case True
      show ?thesis
      proof (cases "py_getitem event (cps ''segs'')")
        case (Inl e)
        with present True run show ?thesis by simp
      next
        case item: (Inr v)
        show ?thesis
        proof (cases "py_iter v")
          case (Inl e)
          with present True item run show ?thesis by simp
        next
          case it: (Inr segs)
          show ?thesis
          proof (cases "extract_segs segs segments")
            case (Inl e)
            with present True item it run show ?thesis by simp
          next
            case inner: (Inr mid)
            with present True item it run
            have r: "extract_events events mid = Inr out" by simp
            from extract_segs_trimmed [OF acc inner] r show ?thesis by (rule Cons.IH)
          qed
        qed
      qed
    qed
  qed
qed

lemma extract_text_segments_trimmed:
  "extract_text_segments st data = Inr (segments, st') \<Longrightarrow> list_all trimmed segments"
proof -
  assume run: "extract_text_segments st data = Inr (segments, st')"
  then obtain v where v: "py_get data (cps ''events'') (JArr []) = Inr v"
    by (cases "py_get data (cps ''events'') (JArr [])")
       (simp_all add: extract_text_segments_def)
  with run obtain events where ev: "py_iter v = Inr events"
    by (cases "py_iter v") (simp_all add: extract_text_segments_def)
  with run v obtain out where out: "extract_events events [] = Inr out"
    by (cases "extract_events events []") (simp_all add: extract_text_segments_def)
  with run v ev have "segments = out"
    by (simp add: extract_text_segments_def)
  with extract_events_trimmed [OF _ out] show ?thesis by simp
qed

lemma remove_duplicates_trimmed:
  "list_all trimmed segments \<Longrightarrow> list_all trimmed (fst (remove_duplicates st segments))"
  by (simp add: remove_duplicates_fst list_all_iff)

lemma merge_from_trimmed:
  "list_all trimmed segments \<Longrightarrow> list_all trimmed (merge_from m segments)"
  by (induction m segments rule: merge_from.induct) (auto simp: trimmed_def)

lemma merge_consecutive_segments_trimmed:
  "list_all trimmed segments \<Longrightarrow>
   list_all trimmed (merge_consecutive_segments segments m)"
  by (simp add: merge_consecutive_segments_merge_from merge_from_trimmed)

text \<open>
  Claim C5, as stated, fails on a run without fragments: the split of the empty text is
  one empty sentence, which the loop skips, so the paragraphs hold no sentence at all.
\<close>

theorem format_paragraphs_empty_counterexample:
  "\<forall>U. sentences_of U [] = [[]] \<and> sentence_groups U (sentences_of U []) = []
       \<and> concat (sentence_groups U (sentences_of U [])) \<noteq> sentences_of U []"
  by (simp add: sentences_of_def split_sentences_def sentence_groups_def strip_def)

text \<open>
  Claim C5, amended. The loop trims each sentence and skips the sentences that are empty
  after trimming; the sentences of the emitted paragraphs, concatenated in order, are
  exactly the remaining sentences of the split, and each paragraph is the join of its
  sentences with single spaces. When there is at least one fragment and the fragments are
  trimmed, as those of a run are, nothing is trimmed or skipped and the concatenation is
  exactly the list of sentences of the split. The sentences left in the buffer when the
  loop ends are emitted as the last paragraph, whatever their number.
\<close>

theorem group_paragraphs_keeps_sentences:
  "group_paragraphs U sentences = map (join [space]) (sentence_groups U sentences)
   \<and> concat (sentence_groups U sentences) = filter (\<lambda>s. s \<noteq> []) (map strip sentences)
   \<and> [] \<notin> set (sentence_groups U sentences)
   \<and> format_paragraphs U segments =
       join [newline, newline]
         (map (join [space]) (sentence_groups U (sentences_of U segments)))
   \<and> (segments \<noteq> [] \<and> list_all trimmed segments \<longrightarrow>
        concat (sentence_groups U (sentences_of U segments)) = sentences_of U segments)
   \<and> (snd (paragraph_loop U sentences [] []) \<noteq> [] \<longrightarrow>
        group_paragraphs U sentences =
          fst (paragraph_loop U sentences [] []) @
          [join [space] (snd (paragraph_loop U sentences [] []))])"
proof -
  have "concat (sentence_groups U (sentences_of U segments)) = sentences_of U segments"
    if "segments \<noteq> []" and "list_all trimmed segments"
    using sentences_of_trimmed [OF that, of U]
    by (simp add: sentence_groups_concat filter_strip_trimmed)
  moreover have "snd (paragraph_loop U sentences [] []) \<noteq> [] \<longrightarrow>
        group_paragraphs U sentences =
          fst (paragraph_loop U sentences [] []) @
          [join [space] (snd (paragraph_loop U sentences [] []))]"
    by (simp add: group_paragraphs_def case_prod_unfold)
  moreover have "format_paragraphs U segments =
       join [newline, newline]
         (map (join [space]) (sentence_groups U (sentences_of U segments)))"
    by (simp add: group_paragraphs_groups [symmetric] format_paragraphs_def)
  ultimately show ?thesis
    using group_paragraphs_groups [of U sentences] sentence_groups_concat [of U sentences]
      sentence_groups_nonempty [of U sentences]
    by blast
qed

theorem group_paragraphs_keeps_sentences_witness:
  "\<forall>U. snd (paragraph_loop U [cps ''S1.'', cps ''S2.'', cps ''S3.'', cps ''S4.'', cps ''S5.'',
                                 cps ''S6.'', cps ''S7.''] [] []) \<noteq> []
       \<and> group_paragraphs U [cps ''S1.'', cps ''S2.'', cps ''S3.'', cps ''S4.'', cps ''S5.'',
                              cps ''S6.'', cps ''S7.''] =
           [cps ''S1. S2. S3.'', cps ''S4. S5. S6.'', cps ''S7.'']
       \<and> [cps ''Hi'', cps ''there.How are you?''] \<noteq> []
       \<and> list_all trimmed [cps ''Hi'', cps ''there.How are you?'']
       \<and> sentences_of U [cps ''Hi'', cps ''there.How are you?''] =
           [cps ''Hi there.'', cps ''How are you?'']
       \<and> concat (sentence_groups U (sentences_of U [cps ''Hi'', cps ''there.How are you?''])) =
           [cps ''Hi there.'', cps ''How are you?'']"
proof (intro allI)
  fix U
  let ?s = "[cps ''S1.'', cps ''S2.'', cps ''S3.'', cps ''S4.'', cps ''S5.'', cps ''S6.'',
             cps ''S7.'']"
  let ?f = "[cps ''Hi'', cps ''there.How are you?'']"
  have loop: "paragraph_loop U ?s [] [] = ([cps ''S1. S2. S3.'', cps ''S4. S5. S6.''], [cps ''S7.''])"
    by (simp add: is_space_def space_def ends_paragraph_def endswith_def strip_def Let_def)
  then have left: "snd (paragraph_loop U ?s [] []) \<noteq> []"
    by simp
  have frag: "?f \<noteq> []" "list_all trimmed ?f"
    by (simp_all add: trimmed_def is_space_def)
  have sents: "sentences_of U ?f = [cps ''Hi there.'', cps ''How are you?'']"
    by (simp add: sentences_of_def split_sentences_def is_space_def is_mark_def is_word_def
        space_def)
  from group_paragraphs_keeps_sentences [of U ?s ?f] left frag
  have "group_paragraphs U ?s =
      fst (paragraph_loop U ?s [] []) @ [join [space] (snd (paragraph_loop U ?s [] []))]"
    and "concat (sentence_groups U (sentences_of U ?f)) = sentences_of U ?f"
    by blast+
  with loop left frag sents
  show "snd (paragraph_loop U ?s [] []) \<noteq> [] \<and>
      group_paragraphs U ?s = [cps ''S1. S2. S3.'', cps ''S4. S5. S6.'', cps ''S7.''] \<and>
      ?f \<noteq> [] \<and> list_all trimmed ?f \<and>
      sentences_of U ?f = [cps ''Hi there.'', cps ''How are you?''] \<and>
      concat (sentence_groups U (sentences_of U ?f)) = [cps ''Hi there.'', cps ''How are you?'']"
    by simp
qed

section \<open>Properties of \<open>_language_specific_cleaning\<close>\<close>

text \<open>
  Claim C6 does not hold of the code. In a text of three ideographs separated by single
  spaces, the first substitution matches the first ideograph, the space and the second
  ideograph, and goes on behind the second ideograph, which can then not open a match with
  the third: the space between the second and the third ideograph stays.
\<close>

theorem language_specific_cleaning_zh_keeps_space:
  "language_specific_cleaning [0x4e2d, 32, 0x6587, 32, 0x5b57] (cps ''zh'') =
     Inr [0x4e2d, 0x6587, 32, 0x5b57]
   \<and> clean_text [0x4e2d, 32, 0x6587, 32, 0x5b57] (Some (cps ''zh'')) =
     Inr [0x4e2d, 0x6587, 32, 0x5b57]
   \<and> is_cjk 0x6587 \<and> is_cjk 0x5b57 \<and> is_space 32"
  by (simp add: language_specific_cleaning_def is_cjk_def is_space_def is_latin_digit_def
      clean_text_def remove_spans_def strip_def space_def newline_def Let_def)

section \<open>Properties of loading, extraction and saving\<close>

text \<open>
  Every character of the text handed to \<open>clean_text\<close> is a character of a fragment, a
  space or a line feed: no stage brings in any other character, so a run whose fragments
  hold no surrogate code point writes a text that holds none.
\<close>

lemma set_join: "set (join sep xs) \<subseteq> set sep \<union> \<Union> (set ` set xs)"
  by (induction sep xs rule: join.induct) auto

lemma set_sub_space_before_mark: "set (sub_space_before_mark t) \<subseteq> set t"
proof (induction t rule: sub_space_before_mark.induct)
  case 1
  then show ?case by simp
next
  case (2 c cs)
  show ?case
  proof (cases "is_space c")
    case False
    with "2.IH"(4) show ?thesis by auto
  next
    case True
    show ?thesis
    proof (cases "dropWhile is_space cs")
      case Nil
      with True have "sub_space_before_mark (c # cs) = c # sub_space_before_mark cs"
        by (simp del: dropWhile_eq_Nil_conv)
      with "2.IH"(1) [OF True Nil] show ?thesis by auto
    next
      case (Cons p rest)
      then have sub: "set (p # rest) \<subseteq> set cs"
        using set_dropWhileD [of _ is_space cs] by auto
      show ?thesis
      proof (cases "is_mark p")
        case yes: True
        from "2.IH"(2) [OF True Cons yes] True Cons yes sub show ?thesis by auto
      next
        case no: False
        from "2.IH"(3) [OF True Cons no] True Cons no show ?thesis by auto
      qed
    qed
  qed
qed

lemma set_sub_mark_word: "set (sub_mark_word U t) \<subseteq> set t \<union> {space}"
  by (induction U t rule: sub_mark_word.induct) auto

lemma set_split_sentences_loop:
  "\<Union> (set ` set (split_sentences_loop prev piece rest)) \<subseteq> set piece \<union> set rest"
proof (induction prev piece rest rule: split_sentences_loop.induct)
  case (1 prev piece)
  then show ?case by simp
next
  case (2 prev piece c cs)
  have d: "set (dropWhile is_space cs) \<subseteq> set cs"
    using set_dropWhileD [of _ is_space cs] by auto
  show ?case
  proof (cases "(case prev of None \<Rightarrow> False | Some p \<Rightarrow> is_mark p) \<and> is_space c")
    case True
    define pieces where "pieces =
      split_sentences_loop (Some (last (c # takeWhile is_space cs))) [] (dropWhile is_space cs)"
    from True have step: "split_sentences_loop prev piece (c # cs) = piece # pieces"
      unfolding pieces_def by (simp del: last.simps)
    from "2.IH"(1) [OF True] d have "\<Union> (set ` set pieces) \<subseteq> set cs"
      unfolding pieces_def by auto
    then show ?thesis unfolding step by auto
  next
    case False
    then have step: "split_sentences_loop prev piece (c # cs) =
        split_sentences_loop (Some c) (piece @ [c]) cs"
      by auto
    define pieces where "pieces = split_sentences_loop (Some c) (piece @ [c]) cs"
    from "2.IH"(2) [OF False] have "\<Union> (set ` set pieces) \<subseteq> set piece \<union> set (c # cs)"
      unfolding pieces_def by auto
    then show ?thesis unfolding step pieces_def [symmetric] .
  qed
qed

lemma set_sentences_of:
  "\<Union> (set ` set (sentences_of U segments)) \<subseteq> \<Union> (set ` set segments) \<union> {space}"
  using set_split_sentences_loop [of None "[]"
      "sub_mark_word U (sub_space_before_mark (join [space] segments))"]
    set_sub_mark_word [of U "sub_space_before_mark (join [space] segments)"]
    set_sub_space_before_mark [of "join [space] segments"]
    set_join [of "[space]" segments]
  unfolding sentences_of_def split_sentences_def by auto

lemma set_group_paragraphs:
  "\<Union> (set ` set (group_paragraphs U sentences)) \<subseteq> \<Union> (set ` set sentences) \<union> {space}"
proof
  fix c
  assume "c \<in> \<Union> (set ` set (group_paragraphs U sentences))"
  then obtain g where g: "g \<in> set (sentence_groups U sentences)" and c: "c \<in> set (join [space] g)"
    by (auto simp: group_paragraphs_groups)
  from c set_join [of "[space]" g] have "c = space \<or> (\<exists>s \<in> set g. c \<in> set s)" by auto
  then show "c \<in> \<Union> (set ` set sentences) \<union> {space}"
  proof
    assume "c = space"
    then show ?thesis by simp
  next
    assume "\<exists>s \<in> set g. c \<in> set s"
    then obtain s where s: "s \<in> set g" "c \<in> set s" by blast
    with g have "s \<in> set (concat (sentence_groups U sentences))" by auto
    then have "s \<in> set (map strip sentences)"
      by (simp add: sentence_groups_concat)
    then obtain s0 where "s0 \<in> set sentences" "s = strip s0" by auto
    with s set_strip [of s0] show ?thesis by auto
  qed
qed

lemma set_format_paragraphs:
  "set (format_paragraphs U segments) \<subseteq> \<Union> (set ` set segments) \<union> {space, newline}"
  using set_join [of "[newline, newline]" "group_paragraphs U (sentences_of U segments)"]
    set_group_paragraphs [of U "sentences_of U segments"] set_sentences_of [of U segments]
  unfolding format_paragraphs_def by auto

lemma set_merge_from:
  "\<Union> (set ` set (merge_from m segments)) \<subseteq> \<Union> (set ` set segments) \<union> {space}"
  by (induction m segments rule: merge_from.induct) auto

lemma not_surrogate_space: "\<not> is_surrogate space" "\<not> is_surrogate newline"
  by (simp_all add: is_surrogate_def space_def newline_def)

lemma clean_text_ok:
  "lang \<noteq> Some (cps ''ko'') \<Longrightarrow> \<exists>t'. clean_text t lang = Inr t'"
  by (cases lang) (auto simp: clean_text_def language_specific_cleaning_def Let_def
      simp del: cps_simps)

lemma clean_text_ko: "clean_text t (Some (cps ''ko'')) = Inl ReError"
  by (simp add: clean_text_def language_specific_cleaning_def Let_def)

text \<open>
  On a document of the expected types, loading and extraction succeed and every fragment
  is free of surrogate code points; with a language code other than \<open>ko\<close> and a writable
  output file the whole run succeeds.
\<close>

lemma key_in_iff: "key \<in> fst ` set kvs \<longleftrightarrow> map_of kvs key \<noteq> None"
  by (simp add: map_of_eq_None_iff)

lemma extract_segs_ok:
  "list_all seg_ok segs \<Longrightarrow> \<forall>s \<in> set segments. \<not> list_ex is_surrogate s \<Longrightarrow>
   \<exists>out. extract_segs segs segments = Inr out \<and> (\<forall>s \<in> set out. \<not> list_ex is_surrogate s)"
proof (induction segs arbitrary: segments)
  case Nil
  then show ?case by simp
next
  case (Cons seg segs)
  then have ok: "seg_ok seg" and rest: "list_all seg_ok segs" by simp_all
  note acc = Cons.prems(2)
  from ok obtain kvs where seg: "seg = JObj kvs" by (cases seg) simp_all
  show ?case
  proof (cases "map_of kvs (cps ''utf8'')")
    case None
    then have "cps ''utf8'' \<notin> fst ` set kvs" by (simp add: key_in_iff)
    with seg Cons.IH [OF rest acc] show ?thesis
      by (simp add: py_in_def)
  next
    case (Some v)
    then have present: "cps ''utf8'' \<in> fst ` set kvs" by (simp add: key_in_iff)
    from ok seg Some obtain s where v: "v = JStr s" and plain: "\<not> list_ex is_surrogate s"
      by (cases v) simp_all
    from plain set_strip [of s] have "\<not> list_ex is_surrogate (strip s)"
      by (auto simp: list_ex_iff)
    with acc have acc': "\<forall>x \<in> set (segments @ [strip s]). \<not> list_ex is_surrogate x"
      by simp
    from present seg Some v Cons.IH [OF rest acc] Cons.IH [OF rest acc'] show ?thesis
      by (simp add: py_in_def py_getitem_def py_strip_def)
  qed
qed

lemma extract_events_ok:
  "list_all event_ok events \<Longrightarrow> \<forall>s \<in> set segments. \<not> list_ex is_surrogate s \<Longrightarrow>
   \<exists>out. extract_events events segments = Inr out \<and> (\<forall>s \<in> set out. \<not> list_ex is_surrogate s)"
proof (induction events arbitrary: segments)
  case Nil
  then show ?case by simp
next
  case (Cons event events)
  then have ok: "event_ok event" and rest: "list_all event_ok events" by simp_all
  note acc = Cons.prems(2)
  from ok obtain kvs where ev: "event = JObj kvs" by (cases event) simp_all
  show ?case
  proof (cases "map_of kvs (cps ''segs'')")
    case None
    then have "cps ''segs'' \<notin> fst ` set kvs" by (simp add: key_in_iff)
    with ev Cons.IH [OF rest acc] show ?thesis
      by (simp add: py_in_def)
  next
    case (Some v)
    then have present: "cps ''segs'' \<in> fst ` set kvs" by (simp add: key_in_iff)
    from ok ev Some obtain segs where v: "v = JArr segs" and segs: "list_all seg_ok segs"
      by (cases v) simp_all
    from extract_segs_ok [OF segs acc] obtain mid
      where mid: "extract_segs segs segments = Inr mid"
        and plain: "\<forall>s \<in> set mid. \<not> list_ex is_surrogate s" by blast
    from present ev Some v mid Cons.IH [OF rest plain] show ?thesis
      by (simp add: py_in_def py_getitem_def py_iter_def)
  qed
qed

lemma load_and_extract_ok:
  assumes "document_ok raw" and "py_in (cps ''events'') raw \<noteq> Inr False"
  shows "\<exists>segments. load_json3_file raw = Inr raw \<and>
           extract_text_segments st raw =
             Inr (segments, st\<lparr>original_segments := int (length segments)\<rparr>) \<and>
           (\<forall>s \<in> set segments. \<not> list_ex is_surrogate s)"
proof -
  from assms(1) obtain kvs where raw: "raw = JObj kvs" by (cases raw) simp_all
  with assms(2) have "map_of kvs (cps ''events'') \<noteq> None"
    by (simp add: py_in_def key_in_iff)
  then obtain v where v: "map_of kvs (cps ''events'') = Some v" by blast
  with assms(1) raw obtain events where ev: "v = JArr events" and ok: "list_all event_ok events"
    by (cases v) simp_all
  from v have present: "cps ''events'' \<in> fst ` set kvs" by (simp add: key_in_iff)
  with raw v ev have load: "load_json3_file raw = Inr raw"
    by (simp add: load_json3_file_def py_in_def py_getitem_def py_len_def)
  from extract_events_ok [OF ok, of "[]"] obtain segs
    where segs: "extract_events events [] = Inr segs"
      and plain: "\<forall>s \<in> set segs. \<not> list_ex is_surrogate s" by auto
  with raw v ev have "extract_text_segments st raw =
      Inr (segs, st\<lparr>original_segments := int (length segs)\<rparr>)"
    by (simp add: extract_text_segments_def py_get_def py_iter_def)
  with load plain show ?thesis by blast
qed

lemma run_text_plain:
  assumes "\<forall>s \<in> set segments. \<not> list_ex is_surrogate s"
  shows "\<not> list_ex is_surrogate
     (if fmt then format_paragraphs U
          (if 0 < m then merge_consecutive_segments
               (if dup then fst (remove_duplicates st segments) else segments) m
           else (if dup then fst (remove_duplicates st segments) else segments))
      else join [space]
          (if 0 < m then merge_consecutive_segments
               (if dup then fst (remove_duplicates st segments) else segments) m
           else (if dup then fst (remove_duplicates st segments) else segments)))"
proof -
  define P where "P = {c. \<not> is_surrogate c}"
  have sp: "space \<in> P" "newline \<in> P"
    by (simp_all add: P_def not_surrogate_space)
  from assms have s0: "\<Union> (set ` set segments) \<subseteq> P"
    by (auto simp: P_def list_ex_iff)
  define s1 where "s1 = (if dup then fst (remove_duplicates st segments) else segments)"
  have s1: "\<Union> (set ` set s1) \<subseteq> P"
    using s0 by (simp add: s1_def remove_duplicates_fst)
  define s2 where "s2 = (if 0 < m then merge_consecutive_segments s1 m else s1)"
  have "\<Union> (set ` set (merge_from m s1)) \<subseteq> P"
    using s1 sp set_merge_from [of m s1] by blast
  with s1 have s2: "\<Union> (set ` set s2) \<subseteq> P"
    by (simp add: s2_def merge_consecutive_segments_merge_from)
  have "set (format_paragraphs U s2) \<subseteq> P"
    using s2 sp set_format_paragraphs [of U s2] by blast
  moreover have "set [space] \<union> \<Union> (set ` set s2) \<subseteq> P"
    using s2 sp by simp
  then have "set (join [space] s2) \<subseteq> P"
    using set_join [of "[space]" s2] by (rule subset_trans [rotated])
  ultimately have "set (if fmt then format_paragraphs U s2 else join [space] s2) \<subseteq> P"
    by simp
  then show ?thesis
    unfolding s2_def s1_def by (auto simp: P_def list_ex_iff)
qed

lemma process_file_ok:
  assumes "document_ok raw" and "py_in (cps ''events'') raw \<noteq> Inr False"
    and "language_code opts \<noteq> Some (cps ''ko'')" and writable
  shows "\<exists>out. process_file U writable elapsed st opts raw = Inr out"
proof -
  from load_and_extract_ok [OF assms(1,2), of st] obtain segments
    where load: "load_json3_file raw = Inr raw"
      and ext: "extract_text_segments st raw =
          Inr (segments, st\<lparr>original_segments := int (length segments)\<rparr>)"
      and plain: "\<forall>s \<in> set segments. \<not> list_ex is_surrogate s" by blast
  let ?st = "st\<lparr>original_segments := int (length segments)\<rparr>"
  define t0 where "t0 =
     (if format_paragraphs_opt opts then format_paragraphs U
          (if 0 < min_segment_length opts then merge_consecutive_segments
               (if merge_duplicates opts then fst (remove_duplicates ?st segments)
                else segments) (min_segment_length opts)
           else (if merge_duplicates opts then fst (remove_duplicates ?st segments)
                 else segments))
      else join [space]
          (if 0 < min_segment_length opts then merge_consecutive_segments
               (if merge_duplicates opts then fst (remove_duplicates ?st segments)
                else segments) (min_segment_length opts)
           else (if merge_duplicates opts then fst (remove_duplicates ?st segments)
                 else segments)))"
  have p0: "\<not> list_ex is_surrogate t0"
    unfolding t0_def by (rule run_text_plain [OF plain])
  from clean_text_ok [OF assms(3), of t0] obtain t
    where t: "clean_text t0 (language_code opts) = Inr t" by blast
  from set_clean_text [OF t] p0 have "\<not> list_ex is_surrogate t"
    by (auto simp: list_ex_iff not_surrogate_space)
  with assms(4) have save: "save_output_file writable t = Inr ()"
    by (simp add: save_output_file_def)
  from load ext have "process_file U writable elapsed st opts raw =
      bind_err (clean_text t0 (language_code opts)) (\<lambda>text.
        bind_err (save_output_file writable text) (\<lambda>saved.
          Inr (text,
            (if merge_duplicates opts then snd (remove_duplicates ?st segments) else ?st)
              \<lparr>processed_segments := int (length
                  (if 0 < min_segment_length opts then merge_consecutive_segments
                     (if merge_duplicates opts then fst (remove_duplicates ?st segments)
                      else segments) (min_segment_length opts)
                   else (if merge_duplicates opts then fst (remove_duplicates ?st segments)
                         else segments))),
                total_characters := int (length text),
                total_words := int (word_count text),
                processing_time := elapsed\<rparr>)))"
    unfolding t0_def by (simp add: process_file_def Let_def case_prod_unfold)
  with t save show ?thesis by simp
qed

lemma process_file_missing_events:
  "py_in (cps ''events'') raw = Inr False \<Longrightarrow>
   process_file U writable elapsed st opts raw = Inl ValueError"
  by (simp add: process_file_def load_json3_file_def)

lemma extract_events_skip:
  "cps ''segs'' \<notin> set (map fst kvs) \<Longrightarrow>
   extract_events (JObj kvs # events) segments = extract_events events segments"
  by (simp add: py_in_def)

lemma extract_segs_skip:
  "cps ''utf8'' \<notin> set (map fst kvs) \<Longrightarrow>
   extract_segs (JObj kvs # segs) segments = extract_segs segs segments"
  by (simp add: py_in_def)

text \<open>
  Claim C9, as stated, fails: the document \<open>{"events": [{"segs": null}]}\<close> has the top-level
  event list, its one event does not conform, and the loop over \<open>event['segs']\<close> raises a
  type error instead of skipping the event. A run on a conforming document with the event
  list fails as well when the language code is \<open>ko\<close>, whose pattern does not compile, and
  when a text holds a surrogate code point, which cannot be written as UTF-8.
\<close>

theorem process_file_null_segs_counterexample:
  "\<forall>U writable elapsed st opts.
     py_in (cps ''events'') (JObj [(cps ''events'', JArr [JObj [(cps ''segs'', JNull)]])]) = Inr True
     \<and> process_file U writable elapsed st opts
         (JObj [(cps ''events'', JArr [JObj [(cps ''segs'', JNull)]])]) = Inl TypeError
     \<and> process_file U writable elapsed st
         \<lparr>merge_duplicates = True, min_segment_length = 10, format_paragraphs_opt = True,
          language_code = Some (cps ''ko'')\<rparr>
         (JObj [(cps ''events'',
            JArr [JObj [(cps ''segs'', JArr [JObj [(cps ''utf8'', JStr (cps ''Hi''))]])]])]) =
         Inl ReError
     \<and> process_file U True elapsed st
         \<lparr>merge_duplicates = True, min_segment_length = 10, format_paragraphs_opt = True,
          language_code = None\<rparr>
         (JObj [(cps ''events'',
            JArr [JObj [(cps ''segs'', JArr [JObj [(cps ''utf8'', JStr [0xd800])]])]])]) =
         Inl UnicodeEncodeError"
  by (simp add: process_file_def load_json3_file_def extract_text_segments_def py_in_def
      py_getitem_def py_len_def py_get_def py_iter_def py_strip_def strip_def is_space_def
      case_prod_unfold Let_def remove_duplicates_fst merge_consecutive_segments_merge_from
      format_paragraphs_def sentences_of_def split_sentences_def group_paragraphs_def
      is_mark_def is_word_def space_def newline_def ends_paragraph_def endswith_def
      clean_text_def remove_spans_def language_specific_cleaning_def
      save_output_file_def is_surrogate_def)

text \<open>
  Claim C9, amended. For a document whose \<open>events\<close>, \<open>segs\<close> and \<open>utf8\<close> values, where
  present, are a list of objects, a list of objects and a string without surrogate code
  points, when the language code is not \<open>ko\<close> and the output file can be written,
  processing fails exactly when the top-level event list is absent; whenever the test for
  the event list is false the error is the \<open>ValueError\<close> of \<open>load_json3_file\<close>; an event
  without \<open>segs\<close> and a fragment without \<open>utf8\<close> are skipped by the extraction.
\<close>

theorem process_file_fails_iff:
  "(document_ok raw \<and> language_code opts \<noteq> Some (cps ''ko'') \<and> writable \<longrightarrow>
      ((\<exists>e. process_file U writable elapsed st opts raw = Inl e) \<longleftrightarrow>
       py_in (cps ''events'') raw = Inr False))
   \<and> (py_in (cps ''events'') raw = Inr False \<longrightarrow>
        process_file U writable elapsed st opts raw = Inl ValueError)
   \<and> (cps ''segs'' \<notin> set (map fst kvs) \<longrightarrow>
        extract_events (JObj kvs # events) segments = extract_events events segments)
   \<and> (cps ''utf8'' \<notin> set (map fst kvs) \<longrightarrow>
        extract_segs (JObj kvs # segs) segments = extract_segs segs segments)"
proof -
  have "(\<exists>e. process_file U writable elapsed st opts raw = Inl e) \<longleftrightarrow>
       py_in (cps ''events'') raw = Inr False"
    if ok: "document_ok raw" and lang: "language_code opts \<noteq> Some (cps ''ko'')"
      and w: writable
  proof
    assume failed: "\<exists>e. process_file U writable elapsed st opts raw = Inl e"
    show "py_in (cps ''events'') raw = Inr False"
    proof (rule ccontr)
      assume "py_in (cps ''events'') raw \<noteq> Inr False"
      from process_file_ok [OF ok this lang w, of U elapsed st] failed show False
        by auto
    qed
  next
    assume "py_in (cps ''events'') raw = Inr False"
    then show "\<exists>e. process_file U writable elapsed st opts raw = Inl e"
      by (simp add: process_file_missing_events)
  qed
  moreover have "py_in (cps ''events'') raw = Inr False \<longrightarrow>
      process_file U writable elapsed st opts raw = Inl ValueError"
    using process_file_missing_events by blast
  moreover have "cps ''segs'' \<notin> set (map fst kvs) \<longrightarrow>
      extract_events (JObj kvs # events) segments = extract_events events segments"
    using extract_events_skip by blast
  moreover have "cps ''utf8'' \<notin> set (map fst kvs) \<longrightarrow>
      extract_segs (JObj kvs # segs) segments = extract_segs segs segments"
    using extract_segs_skip by blast
  ultimately show ?thesis by blast
qed

theorem process_file_fails_iff_witness:
  "\<forall>U elapsed st.
     document_ok (JObj [(cps ''title'', JNull)])
     \<and> language_code \<lparr>merge_duplicates = True, min_segment_length = 10,
          format_paragraphs_opt = True, language_code = Some (cps ''zh'')\<rparr> \<noteq> Some (cps ''ko'')
     \<and> py_in (cps ''events'') (JObj [(cps ''title'', JNull)]) = Inr False
     \<and> process_file U True elapsed st
          \<lparr>merge_duplicates = True, min_segment_length = 10, format_paragraphs_opt = True,
           language_code = Some (cps ''zh'')\<rparr> (JObj [(cps ''title'', JNull)]) = Inl ValueError
     \<and> document_ok (JObj [(cps ''events'', JArr [JObj [(cps ''tStartMs'', JNum 0)],
          JObj [(cps ''segs'', JArr [JObj [(cps ''acAsrConf'', JNum 0)],
                                     JObj [(cps ''utf8'', JStr (cps ''Hi''))]])]])])
     \<and> \<not> (\<exists>e. process_file U True elapsed st
          \<lparr>merge_duplicates = True, min_segment_length = 10, format_paragraphs_opt = True,
           language_code = Some (cps ''zh'')\<rparr>
          (JObj [(cps ''events'', JArr [JObj [(cps ''tStartMs'', JNum 0)],
             JObj [(cps ''segs'', JArr [JObj [(cps ''acAsrConf'', JNum 0)],
                                        JObj [(cps ''utf8'', JStr (cps ''Hi''))]])]])]) = Inl e)
     \<and> cps ''segs'' \<notin> set (map fst [(cps ''tStartMs'', JNum 0)])
     \<and> extract_events [JObj [(cps ''tStartMs'', JNum 0)]] [cps ''Hi''] = Inr [cps ''Hi'']
     \<and> cps ''utf8'' \<notin> set (map fst [(cps ''acAsrConf'', JNum 0)])
     \<and> extract_segs [JObj [(cps ''acAsrConf'', JNum 0)]] [cps ''Hi''] = Inr [cps ''Hi'']"
proof (intro allI)
  fix U elapsed st
  let ?a = "JObj [(cps ''title'', JNull)]"
  let ?b = "JObj [(cps ''events'', JArr [JObj [(cps ''tStartMs'', JNum 0)],
          JObj [(cps ''segs'', JArr [JObj [(cps ''acAsrConf'', JNum 0)],
                                     JObj [(cps ''utf8'', JStr (cps ''Hi''))]])]])]"
  let ?o = "\<lparr>merge_duplicates = True, min_segment_length = 10, format_paragraphs_opt = True,
           language_code = Some (cps ''zh'')\<rparr>"
  have a: "document_ok ?a" "py_in (cps ''events'') ?a = Inr False"
    by (simp_all add: py_in_def)
  have b: "document_ok ?b" "py_in (cps ''events'') ?b \<noteq> Inr False"
    by (simp_all add: py_in_def is_surrogate_def)
  have o: "language_code ?o \<noteq> Some (cps ''ko'')"
    by simp
  have c: "cps ''segs'' \<notin> set (map fst [(cps ''tStartMs'', JNum 0)])"
    "cps ''utf8'' \<notin> set (map fst [(cps ''acAsrConf'', JNum 0)])"
    by simp_all
  from process_file_fails_iff [of ?a ?o True U elapsed st "[(cps ''tStartMs'', JNum 0)]" "[]"
      "[cps ''Hi'']" "[]"] a c
  have 1: "process_file U True elapsed st ?o ?a = Inl ValueError"
    and 2: "extract_events [JObj [(cps ''tStartMs'', JNum 0)]] [cps ''Hi''] =
            extract_events [] [cps ''Hi'']"
    by blast+
  from process_file_fails_iff [of ?b ?o True U elapsed st "[(cps ''acAsrConf'', JNum 0)]" "[]"
      "[cps ''Hi'']" "[]"] b c o
  have 3: "\<not> (\<exists>e. process_file U True elapsed st ?o ?b = Inl e)"
    and 4: "extract_segs [JObj [(cps ''acAsrConf'', JNum 0)]] [cps ''Hi''] =
            extract_segs [] [cps ''Hi'']"
    by blast+
  from a b(1) c o 1 2 3 4
  show "document_ok ?a \<and> language_code ?o \<noteq> Some (cps ''ko'')
     \<and> py_in (cps ''events'') ?a = Inr False
     \<and> process_file U True elapsed st ?o ?a = Inl ValueError
     \<and> document_ok ?b
     \<and> \<not> (\<exists>e. process_file U True elapsed st ?o ?b = Inl e)
     \<and> cps ''segs'' \<notin> set (map fst [(cps ''tStartMs'', JNum 0)])
     \<and> extract_events [JObj [(cps ''tStartMs'', JNum 0)]] [cps ''Hi''] = Inr [cps ''Hi'']
     \<and> cps ''utf8'' \<notin> set (map fst [(cps ''acAsrConf'', JNum 0)])
     \<and> extract_segs [JObj [(cps ''acAsrConf'', JNum 0)]] [cps ''Hi''] = Inr [cps ''Hi'']"
    by simp
qed

end
